theory Spec2Isabelle
  imports Complex_Main
begin

section \<open>The 2048 mini-game: tiles, board, animation player\<close>

text \<open>
  A shallow embedding of the game engine of the repository (classes \<open>Tile\<close>,
  \<open>GameState\<close> and \<open>GameAnimationController\<close>).

  \<^item> JavaScript objects of class \<open>Tile\<close> and \<open>GameState\<close> are records. Tile objects are
    never shared between two boards (\<open>clone\<close> builds new ones), so they are values
    inside the board record.
  \<^item> The history arrays \<open>prevIndex\<close> and \<open>prevLevel\<close> ARE shared: \<open>Tile.clone\<close> and
    \<open>Tile.moveTo\<close> copy the reference, \<open>Tile.mergeWith\<close> pushes in place. They live in
    an explicit store (\<open>heap\<close>); a tile holds \<open>None\<close> for \<open>null\<close> or \<open>Some r\<close>, the
    address of its array.
  \<^item> \<open>null\<close> (a level, an array element read out of range, which is \<open>undefined\<close>)
    is \<open>None\<close>.
  \<^item> \<open>Math.random()\<close> is an oracle: a list of draws handed to the program. A draw
    \<open>r\<close> stands for the value of \<open>Math.floor(Math.random() * n)\<close> of one call of
    \<open>MathUtils.randomInRange(n)\<close>; when the list is used up the model stops with
    \<open>DrawsExhausted\<close> (the rejection loop of \<open>spawnTile\<close> need not terminate).
  \<^item> A property access on \<open>undefined\<close> or \<open>null\<close> throws; the model returns
    \<open>Inl TypeError\<close>.
\<close>

subsection \<open>Enumerations\<close>

datatype Direction = Right | Up | Left | Down

datatype GameStatus = InProgress | Won | Continued | Lost

datatype TileStatus = Empty | Spawned | Still | Moved | Merged

subsection \<open>Errors and sequencing\<close>

datatype error = TypeError | DrawsExhausted

definition bindE :: "error + 'a \<Rightarrow> ('a \<Rightarrow> error + 'b) \<Rightarrow> error + 'b" where
  "bindE m f = (case m of Inl e \<Rightarrow> Inl e | Inr x \<Rightarrow> f x)"

text \<open>A counted \<open>for\<close> loop over the given indices, stopping at the first error.\<close>

fun forE :: "'i list \<Rightarrow> ('i \<Rightarrow> 's \<Rightarrow> error + 's) \<Rightarrow> 's \<Rightarrow> error + 's" where
  "forE [] f s = Inr s"
| "forE (i # is) f s = bindE (f i s) (forE is f)"

subsection \<open>The store of history arrays\<close>

type_synonym ref = nat

type_synonym heap = "nat option list list"

text \<open>\<open>[v]\<close>: a new array literal, at the next free address.\<close>

definition alloc :: "nat option list \<Rightarrow> heap \<Rightarrow> ref \<times> heap" where
  "alloc a h = (length h, h @ [a])"

text \<open>\<open>a.push(v)\<close>.\<close>

definition push :: "ref \<Rightarrow> nat option \<Rightarrow> heap \<Rightarrow> heap" where
  "push r v h = h[r := (h ! r) @ [v]]"

text \<open>The contents of the array at an address (no array there: nothing).\<close>

definition arr :: "heap \<Rightarrow> ref \<Rightarrow> nat option list" where
  "arr h r = (if r < length h then h ! r else [])"

text \<open>\<open>a[0]\<close>: \<open>undefined\<close> on an empty array.\<close>

definition first :: "heap \<Rightarrow> ref \<Rightarrow> nat option" where
  "first h r = (case arr h r of [] \<Rightarrow> None | v # _ \<Rightarrow> v)"

subsection \<open>Random draws\<close>

type_synonym draws = "nat list"

text \<open>\<open>MathUtils.randomInRange(n) = Math.min(n - 1, Math.floor(Math.random() * n))\<close>.\<close>

fun randomInRange :: "nat \<Rightarrow> draws \<Rightarrow> error + (int \<times> draws)" where
  "randomInRange n [] = Inl DrawsExhausted"
| "randomInRange n (r # rs) = Inr (min (int n - 1) (int r), rs)"

subsection \<open>Tile\<close>

record Tile =
  index :: nat
  level :: "nat option"
  prevIndex :: "ref option"
  prevLevel :: "ref option"
  status :: TileStatus

definition Tile_new :: "nat \<Rightarrow> Tile" where
  "Tile_new i = \<lparr>index = i, level = None, prevIndex = None, prevLevel = None, status = Empty\<rparr>"

definition reset :: "Tile \<Rightarrow> Tile" where
  "reset t = t\<lparr>level := None, prevIndex := None, prevLevel := None, status := Empty\<rparr>"

definition isEmpty :: "Tile \<Rightarrow> bool" where
  "isEmpty t = (status t = Empty)"

definition ableToMerge :: "Tile \<Rightarrow> bool" where
  "ableToMerge t = (status t \<noteq> Merged \<and> status t \<noteq> Empty)"

text \<open>A level as a number: \<open>null\<close> converts to 0.\<close>

definition levelNum :: "Tile \<Rightarrow> nat" where
  "levelNum t = (case level t of None \<Rightarrow> 0 | Some l \<Rightarrow> l)"

definition scoreValue :: "Tile \<Rightarrow> int option" where
  "scoreValue t = (if isEmpty t then None else Some (2 ^ levelNum t))"

definition prepareForMove :: "Tile \<Rightarrow> heap \<Rightarrow> Tile \<times> heap" where
  "prepareForMove t h =
     (if \<not> isEmpty t then
        (let (ri, h1) = alloc [Some (index t)] h;
             (rl, h2) = alloc [level t] h1
         in (t\<lparr>prevIndex := Some ri, prevLevel := Some rl, status := Still\<rparr>, h2))
      else (t, h))"

definition spawn :: "Tile \<Rightarrow> draws \<Rightarrow> error + (Tile \<times> draws)" where
  "spawn t ds =
     bindE (randomInRange 10 ds) (\<lambda>(r, ds').
       Inr (t\<lparr>level := Some (1 + nat (r div 9)), status := Spawned\<rparr>, ds'))"

text \<open>
  \<open>this.mergeWith(tile)\<close> for two different objects; the result is the pair
  (\<open>this\<close>, \<open>tile\<close>) and the store. \<open>tile.prevIndex.push\<close> and \<open>this.prevIndex[0]\<close> throw
  when the array is \<open>null\<close>.
\<close>

definition mergeWith :: "Tile \<Rightarrow> Tile \<Rightarrow> heap \<Rightarrow> error + (Tile \<times> Tile \<times> heap)" where
  "mergeWith this tile h =
     (if \<not> isEmpty this then
        (case (prevIndex tile, prevIndex this, prevLevel tile, prevLevel this) of
           (Some ti, Some si, Some tl', Some sl) \<Rightarrow>
             (let h1 = push ti (first h si) h;
                  h2 = push tl' (first h1 sl) h1
              in Inr (reset this,
                      tile\<lparr>level := Some (levelNum tile + 1), status := Merged\<rparr>,
                      h2))
         | _ \<Rightarrow> Inl TypeError)
      else Inr (this, tile, h))"

text \<open>\<open>this.moveTo(tile)\<close> for two different objects; the result is (\<open>this\<close>, \<open>tile\<close>).\<close>

definition moveTo :: "Tile \<Rightarrow> Tile \<Rightarrow> Tile \<times> Tile" where
  "moveTo this tile =
     (if \<not> isEmpty this then
        (reset this,
         tile\<lparr>level := level this, prevLevel := prevLevel this,
              prevIndex := prevIndex this, status := Moved\<rparr>)
      else (this, tile))"

definition Tile_equals :: "Tile \<Rightarrow> Tile \<Rightarrow> bool" where
  "Tile_equals this tile = (index this = index tile \<and> level this = level tile)"

definition Tile_clone :: "Tile \<Rightarrow> Tile" where
  "Tile_clone this =
     (Tile_new (index this))\<lparr>level := level this, prevLevel := prevLevel this,
                             prevIndex := prevIndex this, status := status this\<rparr>"

subsection \<open>GameState\<close>

record GameState =
  rows :: nat
  columns :: nat
  targetTileLevel :: int
  tiles :: "Tile list"
  score :: int
  gameStatus :: GameStatus

text \<open>
  \<open>this.tiles[index]\<close> followed by a property access: outside the array the value is
  \<open>undefined\<close> and the access throws.
\<close>

definition tileAt :: "Tile list \<Rightarrow> int \<Rightarrow> error + Tile" where
  "tileAt ts i = (if 0 \<le> i \<and> nat i < length ts then Inr (ts ! nat i) else Inl TypeError)"

definition boardSize :: "GameState \<Rightarrow> nat" where
  "boardSize g = rows g * columns g"

definition isInsideBoard :: "GameState \<Rightarrow> int \<Rightarrow> bool" where
  "isInsideBoard g i = (0 \<le> i \<and> i < int (boardSize g))"

text \<open>JavaScript's \<open>%\<close>: the sign of the result is the sign of the dividend.\<close>

definition jsRem :: "int \<Rightarrow> int \<Rightarrow> int" where
  "jsRem a b = (if a < 0 then - ((- a) mod b) else a mod b)"

text \<open>
  With \<open>columns = 0\<close> the quotients and remainders are infinite or \<open>NaN\<close> and every
  comparison of the source is false.
\<close>

definition areNeighboring :: "GameState \<Rightarrow> int \<Rightarrow> int \<Rightarrow> bool" where
  "areNeighboring g index1 index2 =
     (let c = int (columns g);
          dRow = index2 div c - index1 div c;
          dCol = jsRem index2 c - jsRem index1 c
      in c \<noteq> 0 \<and> (\<bar>dRow\<bar> = 1 \<and> \<bar>dCol\<bar> = 0 \<or> \<bar>dRow\<bar> = 0 \<and> \<bar>dCol\<bar> = 1))"

fun isFull_from :: "Tile list \<Rightarrow> nat list \<Rightarrow> error + bool" where
  "isFull_from ts [] = Inr True"
| "isFull_from ts (i # is) =
     bindE (tileAt ts (int i)) (\<lambda>t. if isEmpty t then Inr False else isFull_from ts is)"

definition isFull :: "GameState \<Rightarrow> error + bool" where
  "isFull g = isFull_from (tiles g) [0..<boardSize g]"

text \<open>
  The rejection loop of \<open>spawnTile\<close>:
  \<open>do { index = randomInRange(boardSize) } while (!tiles[index].isEmpty)\<close>.
\<close>

fun spawnIndex :: "Tile list \<Rightarrow> nat \<Rightarrow> draws \<Rightarrow> error + (int \<times> draws)" where
  "spawnIndex ts n [] = Inl DrawsExhausted"
| "spawnIndex ts n (r # rs) =
     (let idx = min (int n - 1) (int r)
      in bindE (tileAt ts idx) (\<lambda>t.
           if \<not> isEmpty t then spawnIndex ts n rs else Inr (idx, rs)))"

definition spawnTile :: "GameState \<Rightarrow> draws \<Rightarrow> error + (GameState \<times> draws)" where
  "spawnTile g ds =
     bindE (isFull g) (\<lambda>full.
       if \<not> full then
         bindE (spawnIndex (tiles g) (boardSize g) ds) (\<lambda>(idx, ds1).
         bindE (tileAt (tiles g) idx) (\<lambda>t.
         bindE (spawn t ds1) (\<lambda>(t', ds2).
           Inr (g\<lparr>tiles := (tiles g)[nat idx := t']\<rparr>, ds2))))
       else Inr (g, ds))"

definition GameState_new :: "nat \<Rightarrow> nat \<Rightarrow> int \<Rightarrow> draws \<Rightarrow> error + (GameState \<times> draws)" where
  "GameState_new r c target ds =
     bindE (spawnTile \<lparr>rows = r, columns = c, targetTileLevel = target,
                       tiles = map Tile_new [0..<r * c], score = 0,
                       gameStatus = InProgress\<rparr> ds) (\<lambda>(g1, ds1).
       spawnTile g1 ds1)"

text \<open>
  \<open>clone\<close>: a new \<open>GameState\<close> (whose constructor spawns two tiles, drawing random
  numbers), then the score and a fresh \<open>tiles\<close> array of cloned tiles. The status of
  the clone is the constructor's \<open>InProgress\<close>.
\<close>

definition GameState_clone :: "GameState \<Rightarrow> draws \<Rightarrow> error + (GameState \<times> draws)" where
  "GameState_clone g ds =
     bindE (GameState_new (rows g) (columns g) (targetTileLevel g) ds) (\<lambda>(c, ds1).
       if boardSize g \<le> length (tiles g) then
         Inr (c\<lparr>score := score g,
                tiles := map Tile_clone (take (boardSize g) (tiles g))\<rparr>, ds1)
       else Inl TypeError)"

fun equals_from :: "Tile list \<Rightarrow> Tile list \<Rightarrow> nat list \<Rightarrow> error + bool" where
  "equals_from ts ts' [] = Inr True"
| "equals_from ts ts' (i # is) =
     bindE (tileAt ts (int i)) (\<lambda>t.
     bindE (tileAt ts' (int i)) (\<lambda>t'.
       if \<not> Tile_equals t t' then Inr False else equals_from ts ts' is))"

definition GameState_equals :: "GameState \<Rightarrow> GameState \<Rightarrow> error + bool" where
  "GameState_equals this state =
     (if score this = score state \<and> rows this = rows state \<and> columns this = columns state
      then equals_from (tiles this) (tiles state) [0..<boardSize this]
      else Inr False)"

fun hasAchievedGoal_from :: "int \<Rightarrow> Tile list \<Rightarrow> nat list \<Rightarrow> error + bool" where
  "hasAchievedGoal_from target ts [] = Inr False"
| "hasAchievedGoal_from target ts (i # is) =
     bindE (tileAt ts (int i)) (\<lambda>t.
       if target \<le> int (levelNum t) then Inr True else hasAchievedGoal_from target ts is)"

definition hasAchievedGoal :: "GameState \<Rightarrow> error + bool" where
  "hasAchievedGoal g = hasAchievedGoal_from (targetTileLevel g) (tiles g) [0..<boardSize g]"

lemma bindE_cong [fundef_cong]:
  "m = m' \<Longrightarrow> (\<And>x. m' = Inr x \<Longrightarrow> f x = f' x) \<Longrightarrow> bindE m f = bindE m' f'"
  by (auto simp: bindE_def split: sum.splits)

text \<open>
  \<open>gravitateTile(index, indexChange)\<close> on the board and the store (\<open>idx\<close> is the
  parameter \<open>index\<close>). \<open>tile\<close> and \<open>nextTile\<close> are the objects at \<open>index\<close> and
  \<open>nextIndex\<close>, two different positions when the guard holds.
\<close>

function gravitateTile :: "int \<Rightarrow> int \<Rightarrow> GameState \<times> heap \<Rightarrow> error + (GameState \<times> heap)" where
  "gravitateTile idx indexChange (g, h) =
     (let nextIndex = idx + indexChange in
      if isInsideBoard g nextIndex \<and> areNeighboring g idx nextIndex then
        bindE (tileAt (tiles g) nextIndex) (\<lambda>nextTile0.
        bindE (if \<not> isEmpty nextTile0 then gravitateTile nextIndex indexChange (g, h)
               else Inr (g, h)) (\<lambda>(g1, h1).
        bindE (tileAt (tiles g1) nextIndex) (\<lambda>nextTile.
        bindE (tileAt (tiles g1) idx) (\<lambda>tile.
          if isEmpty nextTile then
            (let (tile', nextTile') = moveTo tile nextTile
             in gravitateTile nextIndex indexChange
                  (g1\<lparr>tiles := (tiles g1)[nat idx := tile', nat nextIndex := nextTile']\<rparr>, h1))
          else if ableToMerge tile \<and> ableToMerge nextTile \<and> level tile = level nextTile then
            bindE (mergeWith tile nextTile h1) (\<lambda>(tile', nextTile', h2).
              Inr (g1\<lparr>tiles := (tiles g1)[nat idx := tile', nat nextIndex := nextTile'],
                      score := score g1 + (case scoreValue nextTile' of None \<Rightarrow> 0 | Some v \<Rightarrow> v)\<rparr>,
                   h2))
          else Inr (g1, h1)))))
      else Inr (g, h))"
  by pat_completeness auto

lemma bindE_Inr: "bindE m f = Inr y \<longleftrightarrow> (\<exists>x. m = Inr x \<and> f x = Inr y)"
  by (auto simp: bindE_def split: sum.splits)

lemma bindE_Inl: "bindE m f = Inl e \<longleftrightarrow> m = Inl e \<or> (\<exists>x. m = Inr x \<and> f x = Inl e)"
  by (auto simp: bindE_def split: sum.splits)

text \<open>
  Termination: every recursive call is one step further towards the border of the
  board, whose dimensions the recursion does not change.
\<close>

lemma gravitateTile_dims:
  "gravitateTile_dom (i, d, s) \<Longrightarrow> gravitateTile i d s = Inr s' \<Longrightarrow>
     rows (fst s') = rows (fst s) \<and> columns (fst s') = columns (fst s)"
proof (induct i d s arbitrary: s' rule: gravitateTile.pinduct)
  case (1 idx indexChange g h)
  show ?case
  proof (cases "isInsideBoard g (idx + indexChange) \<and> areNeighboring g idx (idx + indexChange)")
    case False
    with "1.prems" "1.hyps"(1) show ?thesis by (simp add: gravitateTile.psimps)
  next
    case True
    from "1.prems" "1.hyps"(1) True 
    obtain nextTile0 g1 h1 nextTile tile where
      a: "tileAt (tiles g) (idx + indexChange) = Inr nextTile0"
      and b: "(if \<not> isEmpty nextTile0 then gravitateTile (idx + indexChange) indexChange (g, h) else Inr (g, h)) = Inr (g1, h1)"
      and c: "tileAt (tiles g1) (idx + indexChange) = Inr nextTile" 
      and d: "tileAt (tiles g1) idx = Inr tile"
      and e: "(if isEmpty nextTile then
            (let (tile', nextTile') = moveTo tile nextTile
             in gravitateTile (idx + indexChange) indexChange
                  (g1\<lparr>tiles := (tiles g1)[nat idx := tile', nat (idx + indexChange) := nextTile']\<rparr>, h1))
          else if ableToMerge tile \<and> ableToMerge nextTile \<and> level tile = level nextTile then
            bindE (mergeWith tile nextTile h1) (\<lambda>(tile', nextTile', h2).
              Inr (g1\<lparr>tiles := (tiles g1)[nat idx := tile', nat (idx + indexChange) := nextTile'],
                      score := score g1 + (case scoreValue nextTile' of None \<Rightarrow> 0 | Some v \<Rightarrow> v)\<rparr>,
                   h2))
          else Inr (g1, h1)) = Inr s'"
      by (simp add: gravitateTile.psimps Let_def bindE_Inr split: prod.splits) blast
    have g1: "rows g1 = rows g \<and> columns g1 = columns g"
      using b "1.hyps"(2)[OF refl True a, of "(g1,h1)"] by (auto split: if_splits)
    show ?thesis
    proof (cases "isEmpty nextTile")
      case True
      obtain tile' nextTile' where m: "moveTo tile nextTile = (tile', nextTile')" by force
      with e True have "gravitateTile (idx + indexChange) indexChange
                  (g1\<lparr>tiles := (tiles g1)[nat idx := tile', nat (idx + indexChange) := nextTile']\<rparr>, h1) = Inr s'" by simp
      from "1.hyps"(3)[OF refl \<open>isInsideBoard g (idx + indexChange) \<and> areNeighboring g idx (idx + indexChange)\<close> a b refl c d True m[symmetric] refl this] g1
      show ?thesis by simp
    next
      case False
      with e g1 show ?thesis by (auto simp: bindE_Inr split: if_splits)
    qed
  qed
qed

termination gravitateTile
proof (relation "measure (\<lambda>(i, d, (g, h)).
          if 0 < d then nat (int (boardSize g) - i) else if d < 0 then nat (i + 1) else 0)",
       goal_cases)
  case 1
  show ?case by simp
next
  case (2 idx indexChange g h nextIndex nextTile0)
  then show ?case
    by (auto simp: isInsideBoard_def areNeighboring_def Let_def)
next
  case (3 idx indexChange g h nextIndex nextTile0 s1 g1 h1 nextTile tile mv tile' nextTile')
  have "rows g1 = rows g \<and> columns g1 = columns g"
    using 3 gravitateTile_dims[of nextIndex indexChange "(g, h)" "(g1, h1)"]
    by (auto split: if_splits)
  with 3 show ?case
    by (auto simp: isInsideBoard_def areNeighboring_def Let_def boardSize_def)
qed


definition indexChange :: "GameState \<Rightarrow> Direction \<Rightarrow> int" where
  "indexChange g direction =
     (case direction of
        Right \<Rightarrow> 1
      | Up \<Rightarrow> - int (columns g)
      | Left \<Rightarrow> - 1
      | Down \<Rightarrow> int (columns g))"

text \<open>One iteration of the first loop of \<open>gravitate\<close>: \<open>this.tiles[index].prepareForMove()\<close>.\<close>

definition prepareTile :: "nat \<Rightarrow> GameState \<times> heap \<Rightarrow> error + (GameState \<times> heap)" where
  "prepareTile i s =
     (case s of (g, h) \<Rightarrow>
        bindE (tileAt (tiles g) (int i)) (\<lambda>t.
          (let (t', h') = prepareForMove t h
           in Inr (g\<lparr>tiles := (tiles g)[i := t']\<rparr>, h'))))"

definition gravitate :: "Direction \<Rightarrow> GameState \<times> heap \<Rightarrow> error + (GameState \<times> heap)" where
  "gravitate direction s =
     bindE (forE [0..<boardSize (fst s)] prepareTile s) (\<lambda>s1.
       forE [0..<boardSize (fst s)]
         (\<lambda>i. gravitateTile (int i) (indexChange (fst s) direction)) s1)"

text \<open>
  \<open>move\<close>, \<open>updateStatus\<close> and \<open>isGameOver\<close> call each other: \<open>isGameOver\<close> tries
  \<open>move\<close> on a clone for every direction, in the order of the keys of \<open>Direction\<close>,
  and stops at the first that changes the clone.
\<close>

function move :: "Direction \<Rightarrow> GameState \<Rightarrow> heap \<Rightarrow> draws \<Rightarrow> error + (bool \<times> GameState \<times> heap \<times> draws)"
  and updateStatus :: "GameState \<Rightarrow> heap \<Rightarrow> draws \<Rightarrow> error + (GameState \<times> heap \<times> draws)"
  and isGameOver :: "GameState \<Rightarrow> heap \<Rightarrow> draws \<Rightarrow> error + (bool \<times> heap \<times> draws)"
  and isGameOver_loop :: "Direction list \<Rightarrow> GameState \<Rightarrow> heap \<Rightarrow> draws \<Rightarrow> error + (bool \<times> heap \<times> draws)"
where
  "move direction g h ds =
     bindE (GameState_clone g ds) (\<lambda>(oldState, ds1).
     bindE (gravitate direction (g, h)) (\<lambda>(g1, h1).
     bindE (GameState_equals g1 oldState) (\<lambda>same.
       if \<not> same then
         bindE (spawnTile g1 ds1) (\<lambda>(g2, ds2).
         bindE (updateStatus g2 h1 ds2) (\<lambda>(g3, h3, ds3).
           Inr (True, g3, h3, ds3)))
       else Inr (False, g1, h1, ds1))))"
| "updateStatus g h ds =
     bindE (isGameOver g h ds) (\<lambda>(dead, h1, ds1).
       if dead then Inr (g\<lparr>gameStatus := Lost\<rparr>, h1, ds1)
       else
         bindE (if gameStatus g = InProgress then hasAchievedGoal g else Inr False) (\<lambda>won.
           if won then Inr (g\<lparr>gameStatus := Won\<rparr>, h1, ds1)
           else if gameStatus g = Won then Inr (g\<lparr>gameStatus := Continued\<rparr>, h1, ds1)
           else Inr (g, h1, ds1)))"
| "isGameOver g h ds =
     bindE (isFull g) (\<lambda>dead.
       if dead then isGameOver_loop [Right, Up, Left, Down] g h ds
       else Inr (False, h, ds))"
| "isGameOver_loop [] g h ds = Inr (True, h, ds)"
| "isGameOver_loop (dir # dirs) g h ds =
     bindE (GameState_clone g ds) (\<lambda>(c, ds1).
     bindE (move dir c h ds1) (\<lambda>(changed, c', h1, ds2).
       if changed then Inr (False, h1, ds2)
       else isGameOver_loop dirs g h1 ds2))"
  by pat_completeness auto

text \<open>
  Termination: a clone draws at least one random number when the board has a cell, no
  call gives draws back, and a board without cells is never changed by \<open>gravitate\<close>;
  so the number of draws left bounds the depth of the recursion.
\<close>

lemma spawnIndex_draws:
  "spawnIndex ts n ds = Inr (i, ds') \<Longrightarrow> length ds' < length ds"
proof (induction ds arbitrary: i ds')
  case Nil
  then show ?case by simp
next
  case (Cons r rs)
  then show ?case
    by (fastforce simp: Let_def bindE_Inr split: if_splits)
qed

lemma spawn_draws:
  "spawn t ds = Inr (t', ds') \<Longrightarrow> length ds' < length ds"
  by (cases ds) (auto simp: spawn_def bindE_Inr)

lemma spawnTile_frame:
  assumes "spawnTile g ds = Inr (g', ds')"
  shows "length ds' \<le> length ds \<and> rows g' = rows g \<and> columns g' = columns g \<and>
         targetTileLevel g' = targetTileLevel g \<and> score g' = score g \<and>
         gameStatus g' = gameStatus g \<and> length (tiles g') = length (tiles g) \<and>
         (isFull g = Inr False \<longrightarrow> length ds' < length ds)"
  using assms
  by (auto simp: spawnTile_def bindE_Inr split: if_splits dest!: spawnIndex_draws spawn_draws)

lemma isFull_fresh:
  "0 < n \<Longrightarrow> isFull_from (map Tile_new [0..<n]) [0..<n] = Inr False"
  by (simp add: upt_conv_Cons tileAt_def bindE_def isEmpty_def Tile_new_def del: upt_Suc)

lemma GameState_new_frame:
  assumes "GameState_new r c t ds = Inr (g, ds')"
  shows "length ds' \<le> length ds \<and> rows g = r \<and> columns g = c \<and>
         targetTileLevel g = t \<and> score g = 0 \<and> gameStatus g = InProgress \<and>
         length (tiles g) = r * c \<and> (0 < r * c \<longrightarrow> length ds' < length ds)"
proof -
  let ?g0 = "\<lparr>rows = r, columns = c, targetTileLevel = t,
                       tiles = map Tile_new [0..<r * c], score = 0,
                       gameStatus = InProgress\<rparr>"
  from assms obtain g1 ds1 where
    a: "spawnTile ?g0 ds = Inr (g1, ds1)" and b: "spawnTile g1 ds1 = Inr (g, ds')"
    by (auto simp: GameState_new_def bindE_Inr)
  have f: "0 < r * c \<Longrightarrow> isFull ?g0 = Inr False"
    using isFull_fresh[of "r * c"] by (simp add: isFull_def boardSize_def)
  from spawnTile_frame[OF a] spawnTile_frame[OF b] f show ?thesis by auto
qed

lemma GameState_clone_frame:
  assumes "GameState_clone g ds = Inr (c, ds')"
  shows "length ds' \<le> length ds \<and> rows c = rows g \<and> columns c = columns g \<and>
         targetTileLevel c = targetTileLevel g \<and> score c = score g \<and>
         gameStatus c = InProgress \<and> boardSize g \<le> length (tiles g) \<and>
         tiles c = map Tile_clone (take (boardSize g) (tiles g)) \<and>
         (0 < boardSize g \<longrightarrow> length ds' < length ds)"
  using assms
  by (auto simp: GameState_clone_def bindE_Inr boardSize_def split: if_splits
           dest!: GameState_new_frame)

lemma gravitate_empty_board:
  "boardSize g = 0 \<Longrightarrow> gravitate d (g, h) = Inr (g, h)"
  by (simp add: gravitate_def bindE_def)

lemma GameState_equals_empty_board:
  "boardSize g = 0 \<Longrightarrow> score g = score c \<Longrightarrow> rows g = rows c \<Longrightarrow> columns g = columns c \<Longrightarrow>
   GameState_equals g c = Inr True"
  by (simp add: GameState_equals_def)

lemma move_draws:
  "move_updateStatus_isGameOver_isGameOver_loop_dom (Inl (Inl (d, g, h, ds))) \<Longrightarrow>
     (\<forall>r. move d g h ds = Inr r \<longrightarrow> length (snd (snd (snd r))) \<le> length ds)"
  "move_updateStatus_isGameOver_isGameOver_loop_dom (Inl (Inr (g1, h1, ds1))) \<Longrightarrow>
     (\<forall>r. updateStatus g1 h1 ds1 = Inr r \<longrightarrow> length (snd (snd r)) \<le> length ds1)"
  "move_updateStatus_isGameOver_isGameOver_loop_dom (Inr (Inl (g2, h2, ds2))) \<Longrightarrow>
     (\<forall>r. isGameOver g2 h2 ds2 = Inr r \<longrightarrow> length (snd (snd r)) \<le> length ds2)"
  "move_updateStatus_isGameOver_isGameOver_loop_dom (Inr (Inr (dirs, g3, h3, ds3))) \<Longrightarrow>
     (\<forall>r. isGameOver_loop dirs g3 h3 ds3 = Inr r \<longrightarrow> length (snd (snd r)) \<le> length ds3)"
proof (induct rule: move_updateStatus_isGameOver_isGameOver_loop.pinduct)
  case (1 direction g h ds)
  show ?case
  proof (intro allI impI)
    fix r assume r: "move direction g h ds = Inr r"
    from r "1.hyps"(1) obtain oldState ds1 g1 h1 same where
      a: "GameState_clone g ds = Inr (oldState, ds1)" and
      b: "gravitate direction (g, h) = Inr (g1, h1)" and
      c: "GameState_equals g1 oldState = Inr same" and
      d: "(if \<not> same then
         bindE (spawnTile g1 ds1) (\<lambda>(g2, ds2).
         bindE (updateStatus g2 h1 ds2) (\<lambda>(g3, h3, ds3).
           Inr (True, g3, h3, ds3)))
       else Inr (False, g1, h1, ds1)) = Inr r"
      by (simp add: move.psimps bindE_Inr split: prod.splits) blast
    show "length (snd (snd (snd r))) \<le> length ds"
    proof (cases same)
      case True
      with d GameState_clone_frame[OF a] show ?thesis by auto
    next
      case False
      with d obtain g2 ds2 g3 h3 ds3 where
        e: "spawnTile g1 ds1 = Inr (g2, ds2)" and
        f: "updateStatus g2 h1 ds2 = Inr (g3, h3, ds3)" and
        g: "r = (True, g3, h3, ds3)"
        by (auto simp: bindE_Inr)
      from "1.hyps"(2)[OF a refl b refl c False e refl] f
      have "length ds3 \<le> length ds2" by auto
      with GameState_clone_frame[OF a] spawnTile_frame[OF e] g show ?thesis by simp
    qed
  qed
next
  case (2 g h ds)
  then show ?case
    by (auto simp: updateStatus.psimps bindE_Inr split: if_splits)
next
  case (3 g h ds)
  then show ?case
    by (auto simp: isGameOver.psimps bindE_Inr split: if_splits)
next
  case (4 g h ds)
  then show ?case by (simp add: isGameOver_loop.psimps)
next
  case (5 dir dirs g h ds)
  show ?case
  proof (intro allI impI)
    fix r assume r: "isGameOver_loop (dir # dirs) g h ds = Inr r"
    from r "5.hyps"(1) obtain c ds1 changed c' h1 ds2 where
      a: "GameState_clone g ds = Inr (c, ds1)" and
      b: "move dir c h ds1 = Inr (changed, c', h1, ds2)" and
      d: "(if changed then Inr (False, h1, ds2)
       else isGameOver_loop dirs g h1 ds2) = Inr r"
      by (simp add: isGameOver_loop.psimps bindE_Inr split: prod.splits) blast
    from "5.hyps"(2)[OF a refl] b have m: "length ds2 \<le> length ds1" by auto
    show "length (snd (snd r)) \<le> length ds"
    proof (cases changed)
      case True
      with d m GameState_clone_frame[OF a] show ?thesis by auto
    next
      case False
      with d have "isGameOver_loop dirs g h1 ds2 = Inr r" by simp
      with "5.hyps"(3)[OF a refl b refl refl refl False] 
      have "length (snd (snd r)) \<le> length ds2" by auto
      with m GameState_clone_frame[OF a] show ?thesis by simp
    qed
  qed
qed

termination move
proof (relation "measure (\<lambda>x. case x of
          Inl (Inl (d, g, h, ds)) \<Rightarrow> 8 * length ds
        | Inl (Inr (g, h, ds)) \<Rightarrow> 8 * length ds + 7
        | Inr (Inl (g, h, ds)) \<Rightarrow> 8 * length ds + 6
        | Inr (Inr (dirs, g, h, ds)) \<Rightarrow> 8 * length ds + length dirs + 1)",
       goal_cases)
  case 1
  show ?case by simp
next
  case (2 direction g h ds co oldState ds1 gr g1 h1 same sp g2 ds2)
  have "0 < boardSize g"
  proof (rule ccontr)
    assume "\<not> 0 < boardSize g"
    then have z: "boardSize g = 0" by simp
    from 2 GameState_clone_frame[of g ds oldState ds1] gravitate_empty_board[OF z, of direction h]
    have "g1 = g" "score g = score oldState" "rows g = rows oldState" "columns g = columns oldState"
      by auto
    with GameState_equals_empty_board[OF z, of oldState] 2 show False by simp
  qed
  with 2 GameState_clone_frame[of g ds oldState ds1] spawnTile_frame[of g1 ds1 g2 ds2]
  show ?case by auto
next
  case 3
  then show ?case by simp
next
  case 4
  then show ?case by simp
next
  case 5
  then show ?case by (auto dest!: GameState_clone_frame)
next
  case 6
  then show ?case by (auto dest!: GameState_clone_frame dest: move_draws(1))
qed


declare gravitateTile.simps [simp del]
declare move.simps [simp del]
declare updateStatus.simps [simp del]
declare isGameOver.simps [simp del]

subsection \<open>GameAnimationController\<close>

text \<open>
  The animation player. \<open>new Date()\<close> is an input: the clock reading in milliseconds
  (an integer). \<open>advance\<close> reads the clock twice, in \<open>animationStep\<close> (\<open>time\<close>) and at its
  end (\<open>now\<close>). Progress is a real number: the arithmetic of the source is taken as
  exact.
\<close>

record GameAnimationController =
  animationProgress :: real
  stateHistory :: "GameState list"
  prevTime :: int

definition GameAnimationController_new :: "int \<Rightarrow> GameAnimationController" where
  "GameAnimationController_new now = \<lparr>animationProgress = 0, stateHistory = [], prevTime = now\<rparr>"

definition addState :: "GameAnimationController \<Rightarrow> GameState \<Rightarrow> draws \<Rightarrow> error + (GameAnimationController \<times> draws)" where
  "addState a state ds =
     bindE (GameState_clone state ds) (\<lambda>(c, ds').
       Inr (a\<lparr>stateHistory := stateHistory a @ [c]\<rparr>, ds'))"

definition animationStep :: "GameAnimationController \<Rightarrow> int \<Rightarrow> real" where
  "animationStep a time =
     (let baseAnimationDuration = 2 / 10;
          deltaSeconds = real_of_int (time - prevTime a) / 1000;
          deltaPhase = deltaSeconds / baseAnimationDuration
      in real (length (stateHistory a)) * deltaPhase)"

definition advance :: "GameAnimationController \<Rightarrow> int \<Rightarrow> int \<Rightarrow> GameAnimationController" where
  "advance a time now =
     (let a3 =
        (if length (stateHistory a) \<noteq> 1 \<or> animationProgress a \<noteq> 1 then
           (let a1 = (if animationProgress a = 1
                      then a\<lparr>animationProgress := 0, stateHistory := tl (stateHistory a)\<rparr>
                      else a);
                a2 = a1\<lparr>animationProgress := animationProgress a1 + animationStep a1 time\<rparr>
            in if 1 < animationProgress a2 then a2\<lparr>animationProgress := 1\<rparr> else a2)
         else a)
      in a3\<lparr>prevTime := now\<rparr>)"

text \<open>Runs of the player: snapshots pushed and frames advanced, in any order.\<close>

datatype event = AddState GameState | Advance int int

fun play :: "event list \<Rightarrow> GameAnimationController \<times> draws \<Rightarrow> error + (GameAnimationController \<times> draws)" where
  "play [] s = Inr s"
| "play (AddState g # es) (a, ds) = bindE (addState a g ds) (play es)"
| "play (Advance time now # es) (a, ds) = play es (advance a time now, ds)"

text \<open>No clock reading of \<open>animationStep\<close> lies before the previous \<open>prevTime\<close>.\<close>

fun elapsedOK :: "int \<Rightarrow> event list \<Rightarrow> bool" where
  "elapsedOK p [] = True"
| "elapsedOK p (AddState g # es) = elapsedOK p es"
| "elapsedOK p (Advance time now # es) = (p \<le> time \<and> elapsedOK now es)"

fun advances :: "(int \<times> int) list \<Rightarrow> GameAnimationController \<Rightarrow> GameAnimationController" where
  "advances [] a = a"
| "advances ((time, now) # ts) a = advances ts (advance a time now)"

text \<open>Every frame comes at least a millisecond after the previous one.\<close>

fun elapsedPositive :: "int \<Rightarrow> (int \<times> int) list \<Rightarrow> bool" where
  "elapsedPositive p [] = True"
| "elapsedPositive p ((time, now) # ts) = (p < time \<and> elapsedPositive now ts)"

section \<open>Invariants of the sliding pass\<close>

lemma forE_invariant:
  assumes "forE is f s = Inr s'" and "P s"
    and "\<And>i s s'. i \<in> set is \<Longrightarrow> P s \<Longrightarrow> f i s = Inr s' \<Longrightarrow> P s'"
  shows "P s'"
  using assms
proof (induction "is" arbitrary: s)
  case Nil
  then show ?case by simp
next
  case (Cons i "is")
  from Cons.prems(1) obtain s1 where a: "f i s = Inr s1" and b: "forE is f s1 = Inr s'"
    by (auto simp: bindE_Inr)
  have "P s1" using Cons.prems(3)[OF _ Cons.prems(2) a] by simp
  show ?case
  proof (rule Cons.IH[OF b \<open>P s1\<close>])
    fix j t t' assume "j \<in> set is" "P t" "f j t = Inr t'"
    then show "P t'" using Cons.prems(3)[of j t t'] by simp
  qed
qed

text \<open>
  The two effects one call of \<open>gravitateTile\<close> has on the board: \<open>tile.moveTo(nextTile)\<close>,
  and \<open>tile.mergeWith(nextTile)\<close> followed by the score update. Whatever both preserve,
  \<open>gravitateTile\<close> preserves.
\<close>

definition moved :: "GameState \<Rightarrow> int \<Rightarrow> int \<Rightarrow> Tile \<Rightarrow> Tile \<Rightarrow> GameState" where
  "moved g i j tile nextTile =
     g\<lparr>tiles := (tiles g)[nat i := fst (moveTo tile nextTile), nat j := snd (moveTo tile nextTile)]\<rparr>"

definition merged :: "GameState \<Rightarrow> int \<Rightarrow> int \<Rightarrow> Tile \<Rightarrow> Tile \<Rightarrow> GameState" where
  "merged g i j tile' nextTile' =
     g\<lparr>tiles := (tiles g)[nat i := tile', nat j := nextTile'],
       score := score g + (case scoreValue nextTile' of None \<Rightarrow> 0 | Some v \<Rightarrow> v)\<rparr>"

lemma gravitateTile_invariant:
  assumes "gravitateTile idx d (g, h) = Inr (g', h')" and "P g h"
    and mv: "\<And>g h i tile nextTile. P g h \<Longrightarrow> isInsideBoard g (i + d) \<Longrightarrow>
          areNeighboring g i (i + d) \<Longrightarrow> tileAt (tiles g) i = Inr tile \<Longrightarrow>
          tileAt (tiles g) (i + d) = Inr nextTile \<Longrightarrow> isEmpty nextTile \<Longrightarrow>
          P (moved g i (i + d) tile nextTile) h"
    and mg: "\<And>g h i tile nextTile tile' nextTile' h'. P g h \<Longrightarrow> isInsideBoard g (i + d) \<Longrightarrow>
          areNeighboring g i (i + d) \<Longrightarrow> tileAt (tiles g) i = Inr tile \<Longrightarrow>
          tileAt (tiles g) (i + d) = Inr nextTile \<Longrightarrow> \<not> isEmpty nextTile \<Longrightarrow>
          ableToMerge tile \<Longrightarrow> ableToMerge nextTile \<Longrightarrow> level tile = level nextTile \<Longrightarrow>
          mergeWith tile nextTile h = Inr (tile', nextTile', h') \<Longrightarrow>
          P (merged g i (i + d) tile' nextTile') h'"
  shows "P g' h' \<and> rows g' = rows g \<and> columns g' = columns g"
  using assms
proof (induction idx d "(g, h)" arbitrary: g h g' h' rule: gravitateTile.induct)
  case (1 idx indexChange g h)
  note mv' = "1.prems"(3)[where ?i = idx] and mg' = "1.prems"(4)[where ?i = idx]
  let ?n = "idx + indexChange"
  show ?case
  proof (cases "isInsideBoard g ?n \<and> areNeighboring g idx ?n")
    case False
    with "1.prems" show ?thesis by (simp add: gravitateTile.simps)
  next
    case True
    from "1.prems"(1) True
    obtain nextTile0 g1 h1 nextTile tile where
      a: "tileAt (tiles g) ?n = Inr nextTile0"
      and b: "(if \<not> isEmpty nextTile0 then gravitateTile ?n indexChange (g, h) else Inr (g, h)) = Inr (g1, h1)"
      and c: "tileAt (tiles g1) ?n = Inr nextTile"
      and d: "tileAt (tiles g1) idx = Inr tile"
      and e: "(if isEmpty nextTile then
            (let (tile', nextTile') = moveTo tile nextTile
             in gravitateTile ?n indexChange
                  (g1\<lparr>tiles := (tiles g1)[nat idx := tile', nat ?n := nextTile']\<rparr>, h1))
          else if ableToMerge tile \<and> ableToMerge nextTile \<and> level tile = level nextTile then
            bindE (mergeWith tile nextTile h1) (\<lambda>(tile', nextTile', h2).
              Inr (g1\<lparr>tiles := (tiles g1)[nat idx := tile', nat ?n := nextTile'],
                      score := score g1 + (case scoreValue nextTile' of None \<Rightarrow> 0 | Some v \<Rightarrow> v)\<rparr>,
                   h2))
          else Inr (g1, h1)) = Inr (g', h')"
      by (simp add: gravitateTile.simps[of idx] Let_def bindE_Inr split: prod.splits) blast
    have P1': "P g1 h1 \<and> rows g1 = rows g \<and> columns g1 = columns g"
    proof (cases "isEmpty nextTile0")
      case True with b "1.prems"(2) show ?thesis by simp
    next
      case False
      with b have "gravitateTile ?n indexChange (g, h) = Inr (g1, h1)" by simp
      show ?thesis
        by (rule "1.hyps"(1)[OF refl True a False \<open>gravitateTile ?n indexChange (g, h) = Inr (g1, h1)\<close> "1.prems"(2)])
           (erule (5) "1.prems"(3), erule (9) "1.prems"(4))
    qed
    then have P1: "P g1 h1" by simp
    have dims: "isInsideBoard g1 ?n \<and> areNeighboring g1 idx ?n"
      using True P1' by (simp add: isInsideBoard_def areNeighboring_def boardSize_def)
    show ?thesis
    proof (cases "isEmpty nextTile")
      case True
      obtain tile' nextTile' where m: "moveTo tile nextTile = (tile', nextTile')" by force
      with e True have r: "gravitateTile ?n indexChange
                  (g1\<lparr>tiles := (tiles g1)[nat idx := tile', nat ?n := nextTile']\<rparr>, h1) = Inr (g', h')" by simp
      have "P (moved g1 idx ?n tile nextTile) h1"
        using mv'[OF P1 _ _ d c True] dims by simp
      then have Pm: "P (g1\<lparr>tiles := (tiles g1)[nat idx := tile', nat ?n := nextTile']\<rparr>) h1"
        by (simp add: moved_def m)
      have "P g' h' \<and> rows g' = rows (g1\<lparr>tiles := (tiles g1)[nat idx := tile', nat ?n := nextTile']\<rparr>) \<and>
            columns g' = columns (g1\<lparr>tiles := (tiles g1)[nat idx := tile', nat ?n := nextTile']\<rparr>)"
        by (rule "1.hyps"(2)[OF refl \<open>isInsideBoard g ?n \<and> areNeighboring g idx ?n\<close> a b refl c d True refl m[symmetric] r Pm])
           (erule (5) "1.prems"(3), erule (9) "1.prems"(4))
      with P1' show ?thesis by simp
    next
      case False
      show ?thesis
      proof (cases "ableToMerge tile \<and> ableToMerge nextTile \<and> level tile = level nextTile")
        case True
        with e False obtain tile' nextTile' where
          mw: "mergeWith tile nextTile h1 = Inr (tile', nextTile', h')" and
          g': "g' = merged g1 idx ?n tile' nextTile'"
          by (auto simp: bindE_Inr merged_def)
        from mg'[OF P1 _ _ d c False _ _ _ mw] True dims g' P1' show ?thesis by (simp add: merged_def)
      next
        case F2: False
        with e False P1' show ?thesis by auto
      qed
    qed
  qed
qed


lemma index_moveTo [simp]:
  "index (fst (moveTo a b)) = index a" "index (snd (moveTo a b)) = index b"
  by (simp_all add: moveTo_def reset_def)

lemma mergeWith_Inr:
  assumes "mergeWith a b h = Inr (a', b', h')"
  shows "index a' = index a \<and> index b' = index b \<and> length h' = length h \<and>
         (isEmpty a \<longrightarrow> a' = a \<and> b' = b \<and> h' = h) \<and>
         (\<not> isEmpty a \<longrightarrow> a' = reset a \<and> status b' = Merged \<and> level b' = Some (levelNum b + 1) \<and>
            prevIndex b' = prevIndex b \<and> prevLevel b' = prevLevel b)"
  using assms
  by (auto simp: mergeWith_def reset_def push_def Let_def split: if_splits option.splits)

text \<open>What no call of \<open>gravitateTile\<close> changes.\<close>

definition sameFrame :: "GameState \<Rightarrow> GameState \<Rightarrow> bool" where
  "sameFrame g g' =
     (rows g' = rows g \<and> columns g' = columns g \<and> targetTileLevel g' = targetTileLevel g \<and>
      gameStatus g' = gameStatus g \<and> length (tiles g') = length (tiles g) \<and>
      (\<forall>i < length (tiles g). index (tiles g' ! i) = index (tiles g ! i)))"

lemma sameFrame_refl [simp]: "sameFrame g g"
  by (simp add: sameFrame_def)

lemma sameFrame_trans: "sameFrame g g1 \<Longrightarrow> sameFrame g1 g2 \<Longrightarrow> sameFrame g g2"
  by (simp add: sameFrame_def)

lemma tileAt_Inr: "tileAt ts i = Inr t \<longleftrightarrow> 0 \<le> i \<and> nat i < length ts \<and> t = ts ! nat i"
  by (auto simp: tileAt_def)

lemma gravitateTile_frame:
  assumes "gravitateTile idx d (g, h) = Inr (g', h')"
  shows "sameFrame g g' \<and> score g \<le> score g' \<and> length h' = length h"
proof -
  have "(sameFrame g g' \<and> score g \<le> score g' \<and> length h' = length h) \<and> rows g' = rows g \<and> columns g' = columns g"
  proof (rule gravitateTile_invariant[OF assms, where P = "\<lambda>g' h'. sameFrame g g' \<and> score g \<le> score g' \<and> length h' = length h"], goal_cases)
    case 1
    show ?case by simp
  next
    case (2 g1 h1 i tile nextTile)
    then show ?case
      by (auto simp: sameFrame_def moved_def tileAt_Inr nth_list_update)
  next
    case (3 g1 h1 i tile nextTile tile' nextTile' h2)
    have "(0::int) \<le> (case scoreValue nextTile' of None \<Rightarrow> 0 | Some v \<Rightarrow> v)"
      by (simp add: scoreValue_def)
    then have "score g1 \<le> score (merged g1 i (i + d) tile' nextTile')"
      by (simp add: merged_def)
    moreover have "sameFrame g (merged g1 i (i + d) tile' nextTile')"
      using mergeWith_Inr[OF 3(10)] 3
      by (auto simp: sameFrame_def merged_def tileAt_Inr nth_list_update)
    ultimately show ?case using mergeWith_Inr[OF 3(10)] 3 by simp
  qed
  then show ?thesis by simp
qed


subsection \<open>Settled cells\<close>

text \<open>
  The cell \<open>c + d\<close> is the neighbour of \<open>c\<close> in the direction \<open>d\<close> (the guard of
  \<open>gravitateTile\<close>); \<open>ahead g d i c\<close>: the cell \<open>c\<close> is reached from \<open>i\<close> by such steps.
\<close>

definition stepOK :: "GameState \<Rightarrow> int \<Rightarrow> int \<Rightarrow> bool" where
  "stepOK g d c = (isInsideBoard g (c + d) \<and> areNeighboring g c (c + d))"

inductive ahead :: "GameState \<Rightarrow> int \<Rightarrow> int \<Rightarrow> int \<Rightarrow> bool" for g d i where
  here: "ahead g d i i"
| step: "ahead g d i c \<Longrightarrow> stepOK g d c \<Longrightarrow> ahead g d i (c + d)"

definition cell :: "GameState \<Rightarrow> int \<Rightarrow> Tile" where
  "cell g c = tiles g ! nat c"

text \<open>A call of \<open>gravitateTile\<close> at a blocked cell neither moves nor merges its tile.\<close>

definition blocked :: "GameState \<Rightarrow> int \<Rightarrow> int \<Rightarrow> bool" where
  "blocked g d c =
     (\<not> stepOK g d c \<or> isEmpty (cell g c) \<or>
      (\<not> isEmpty (cell g (c + d)) \<and>
       \<not> (ableToMerge (cell g c) \<and> ableToMerge (cell g (c + d)) \<and>
          level (cell g c) = level (cell g (c + d)))))"

definition settled :: "GameState \<Rightarrow> int \<Rightarrow> int \<Rightarrow> bool" where
  "settled g d i = (\<forall>c. ahead g d i c \<longrightarrow> blocked g d c)"

definition mergedSettled :: "GameState \<Rightarrow> int \<Rightarrow> bool" where
  "mergedSettled g d =
     (\<forall>k. 0 \<le> k \<and> k < int (boardSize g) \<and> status (cell g k) = Merged \<longrightarrow> settled g d k)"

lemma stepOK_range: "stepOK g d c \<Longrightarrow> d \<noteq> 0 \<and> 0 \<le> c + d \<and> c + d < int (boardSize g)"
  by (auto simp: stepOK_def isInsideBoard_def areNeighboring_def Let_def)

lemma stepOK_cong: "rows g' = rows g \<Longrightarrow> columns g' = columns g \<Longrightarrow> stepOK g' d c = stepOK g d c"
  by (simp add: stepOK_def isInsideBoard_def areNeighboring_def boardSize_def)

lemma ahead_cong:
  assumes "rows g' = rows g" "columns g' = columns g"
  shows "ahead g' d i c = ahead g d i c"
proof
  assume "ahead g' d i c"
  then show "ahead g d i c"
    by induction (auto intro: ahead.intros simp: stepOK_cong[OF assms])
next
  assume "ahead g d i c"
  then show "ahead g' d i c"
    by induction (auto intro: ahead.intros simp: stepOK_cong[OF assms])
qed

lemma ahead_numeric: "ahead g d i c \<Longrightarrow> \<exists>m::nat. c = i + int m * d"
proof (induction rule: ahead.induct)
  case here
  show ?case by (rule exI[of _ 0]) simp
next
  case (step c)
  then obtain m :: nat where "c = i + int m * d" by blast
  then have "c + d = i + int (Suc m) * d" by (simp add: algebra_simps)
  then show ?case by blast
qed

lemma ahead_front: "ahead g d i c \<Longrightarrow> c = i \<or> (stepOK g d i \<and> ahead g d (i + d) c)"
  by (induction rule: ahead.induct) (auto intro: ahead.intros)

lemma ahead_step_front: "ahead g d (i + d) c \<Longrightarrow> stepOK g d i \<Longrightarrow> ahead g d i c"
  by (induction rule: ahead.induct) (auto intro: ahead.intros)

lemma ahead_back: "ahead g d k c \<Longrightarrow> c = k \<or> (\<exists>c'. ahead g d k c' \<and> stepOK g d c' \<and> c = c' + d)"
  by (erule ahead.cases) auto

lemma ahead_range:
  "ahead g d i c \<Longrightarrow> 0 \<le> i \<Longrightarrow> i < int (boardSize g) \<Longrightarrow> 0 \<le> c \<and> c < int (boardSize g)"
  by (induction rule: ahead.induct) (auto dest: stepOK_range)

lemma not_ahead_back: "stepOK g d i \<Longrightarrow> \<not> ahead g d (i + d) i"
proof
  assume s: "stepOK g d i" and "ahead g d (i + d) i"
  then obtain m :: nat where "i = i + d + int m * d" using ahead_numeric by blast
  then have "(1 + int m) * d = 0" by (simp add: algebra_simps)
  with stepOK_range[OF s] show False by simp
qed

lemma settled_iff:
  "settled g d i \<longleftrightarrow> blocked g d i \<and> (stepOK g d i \<longrightarrow> settled g d (i + d))"
proof
  assume s: "settled g d i"
  then have "blocked g d i" by (simp add: settled_def ahead.here)
  moreover have "settled g d (i + d)" if "stepOK g d i"
    using s that by (auto simp: settled_def dest: ahead_step_front)
  ultimately show "blocked g d i \<and> (stepOK g d i \<longrightarrow> settled g d (i + d))" by simp
next
  assume r: "blocked g d i \<and> (stepOK g d i \<longrightarrow> settled g d (i + d))"
  show "settled g d i"
    unfolding settled_def
  proof (intro allI impI)
    fix c assume "ahead g d i c"
    from ahead_front[OF this] r show "blocked g d c" by (auto simp: settled_def)
  qed
qed

lemma settled_cong:
  assumes "rows g' = rows g" "columns g' = columns g"
    and "\<And>c. ahead g d i c \<Longrightarrow> cell g' c = cell g c"
  shows "settled g' d i = settled g d i"
proof -
  have "blocked g' d c = blocked g d c" if "ahead g d i c" for c
  proof (cases "stepOK g d c")
    case True
    then have "ahead g d i (c + d)" using that by (rule ahead.step[rotated])
    with assms(3)[OF that] assms(3)[of "c + d"] show ?thesis
      by (simp add: blocked_def stepOK_cong[OF assms(1,2)])
  next
    case False
    then show ?thesis by (simp add: blocked_def stepOK_cong[OF assms(1,2)])
  qed
  then show ?thesis
    by (auto simp: settled_def ahead_cong[OF assms(1,2)])
qed

text \<open>A chain that does not pass through \<open>i\<close> and does not start at \<open>i + d\<close> meets neither.\<close>

lemma ahead_avoid:
  assumes "ahead g d k c" "\<not> ahead g d k i" "k \<noteq> i + d"
  shows "c \<noteq> i \<and> c \<noteq> i + d"
proof -
  have "c \<noteq> i" using assms(1,2) by auto
  moreover have "c \<noteq> i + d"
  proof
    assume "c = i + d"
    with ahead_back[OF assms(1)] assms(3) obtain c' where
      "ahead g d k c'" "c' + d = i + d" by auto
    with assms(2) show False by simp
  qed
  ultimately show ?thesis by simp
qed


lemma cell_moved:
  assumes "0 \<le> c" "0 \<le> i" "0 \<le> j" "i \<noteq> j" "nat i < length (tiles g)" "nat j < length (tiles g)"
  shows "cell (moved g i j tile nextTile) c =
           (if c = j then snd (moveTo tile nextTile)
            else if c = i then fst (moveTo tile nextTile) else cell g c)"
  using assms by (auto simp: cell_def moved_def nth_list_update)

lemma cell_merged:
  assumes "0 \<le> c" "0 \<le> i" "0 \<le> j" "i \<noteq> j" "nat i < length (tiles g)" "nat j < length (tiles g)"
  shows "cell (merged g i j tile' nextTile') c =
           (if c = j then nextTile' else if c = i then tile' else cell g c)"
  using assms by (auto simp: cell_def merged_def nth_list_update)

lemma moved_frame [simp]:
  "rows (moved g i j a b) = rows g" "columns (moved g i j a b) = columns g"
  "boardSize (moved g i j a b) = boardSize g" "length (tiles (moved g i j a b)) = length (tiles g)"
  "score (moved g i j a b) = score g"
  by (simp_all add: moved_def boardSize_def)

lemma merged_frame [simp]:
  "rows (merged g i j a b) = rows g" "columns (merged g i j a b) = columns g"
  "boardSize (merged g i j a b) = boardSize g" "length (tiles (merged g i j a b)) = length (tiles g)"
  by (simp_all add: merged_def boardSize_def)

lemma mergedSettled_after_change:
  assumes ms: "mergedSettled g1 d"
    and dims: "rows g2 = rows g1" "columns g2 = columns g1"
    and st: "stepOK g1 d i" and i: "0 \<le> i" "i < int (boardSize g1)"
    and unch: "\<And>c. 0 \<le> c \<Longrightarrow> c \<noteq> i \<Longrightarrow> c \<noteq> i + d \<Longrightarrow> cell g2 c = cell g1 c"
    and nb: "\<not> blocked g1 d i"
    and si: "status (cell g2 i) \<noteq> Merged"
    and sj: "status (cell g2 (i + d)) = Merged \<Longrightarrow> settled g2 d (i + d)"
  shows "mergedSettled g2 d"
  unfolding mergedSettled_def
proof (intro allI impI)
  fix k assume k: "0 \<le> k \<and> k < int (boardSize g2) \<and> status (cell g2 k) = Merged"
  have bs: "boardSize g2 = boardSize g1" using dims by (simp add: boardSize_def)
  show "settled g2 d k"
  proof (cases "k = i + d")
    case True
    with k sj show ?thesis by simp
  next
    case False
    from k si have ki: "k \<noteq> i" by auto
    with k False unch[of k] have "status (cell g1 k) = Merged" by simp
    with ms k bs have s1: "settled g1 d k" by (simp add: mergedSettled_def)
    have na: "\<not> ahead g1 d k i"
    proof
      assume "ahead g1 d k i"
      with s1 have "blocked g1 d i" by (simp add: settled_def)
      with nb show False by simp
    qed
    have "cell g2 c = cell g1 c" if "ahead g1 d k c" for c
    proof -
      from ahead_avoid[OF that na False] have "c \<noteq> i \<and> c \<noteq> i + d" .
      moreover from ahead_range[OF that] k bs have "0 \<le> c" by simp
      ultimately show ?thesis using unch by simp
    qed
    from settled_cong[OF dims this] s1 show ?thesis by simp
  qed
qed

lemma settled_after_merge:
  assumes s1: "settled g1 d (i + d)"
    and dims: "rows g2 = rows g1" "columns g2 = columns g1"
    and st: "stepOK g1 d i" and i: "0 \<le> i"
    and unch: "\<And>c. 0 \<le> c \<Longrightarrow> c \<noteq> i \<Longrightarrow> c \<noteq> i + d \<Longrightarrow> cell g2 c = cell g1 c"
    and ne: "\<not> isEmpty (cell g1 (i + d))"
    and mj: "status (cell g2 (i + d)) = Merged"
  shows "settled g2 d (i + d)"
proof -
  let ?j = "i + d"
  from stepOK_range[OF st] have d0: "d \<noteq> 0" and j0: "0 \<le> ?j" and jB: "?j < int (boardSize g1)" by auto
  have b: "blocked g2 d ?j"
  proof (cases "stepOK g1 d ?j")
    case True
    from s1 have "blocked g1 d ?j" by (simp add: settled_def ahead.here)
    with True ne have n2: "\<not> isEmpty (cell g1 (?j + d))" by (auto simp: blocked_def)
    from stepOK_range[OF True] d0 i have "0 \<le> ?j + d" "?j + d \<noteq> i" "?j + d \<noteq> ?j" by auto
    with unch[of "?j + d"] n2 have "\<not> isEmpty (cell g2 (?j + d))" by simp
    with mj show ?thesis by (simp add: blocked_def ableToMerge_def)
  next
    case False
    then show ?thesis by (simp add: blocked_def stepOK_cong[OF dims])
  qed
  have "settled g2 d (?j + d)" if s: "stepOK g2 d ?j"
  proof -
    from s have s': "stepOK g1 d ?j" by (simp add: stepOK_cong[OF dims])
    have "cell g2 c = cell g1 c" if a: "ahead g1 d (?j + d) c" for c
    proof -
      from ahead_numeric[OF a] obtain m :: nat where c: "c = ?j + d + int m * d" by blast
      have "c \<noteq> i"
      proof
        assume "c = i"
        with c have "(2 + int m) * d = 0" by (simp add: algebra_simps)
        with d0 show False by simp
      qed
      moreover have "c \<noteq> ?j"
      proof
        assume "c = ?j"
        with c have "(1 + int m) * d = 0" by (simp add: algebra_simps)
        with d0 show False by simp
      qed
      moreover from ahead_range[OF a] stepOK_range[OF s'] have "0 \<le> c" by simp
      ultimately show ?thesis using unch by simp
    qed
    from settled_cong[OF dims this] s1 s' show ?thesis
      using settled_iff[of g1 d ?j] by simp
  qed
  with b show ?thesis using settled_iff[of g2 d ?j] by simp
qed


lemma sameFrame_dims:
  "sameFrame g g' \<Longrightarrow> rows g' = rows g \<and> columns g' = columns g \<and> boardSize g' = boardSize g \<and>
     length (tiles g') = length (tiles g)"
  by (simp add: sameFrame_def boardSize_def)

lemma moveTo_empty: "isEmpty a \<Longrightarrow> moveTo a b = (a, b)"
  by (simp add: moveTo_def)

lemma moveTo_nonempty:
  "\<not> isEmpty a \<Longrightarrow> isEmpty (fst (moveTo a b)) \<and> status (snd (moveTo a b)) = Moved"
  by (simp add: moveTo_def reset_def isEmpty_def)

lemma gravitateTile_noStep:
  "\<not> stepOK g d i \<Longrightarrow> gravitateTile i d (g, h) = Inr (g, h)"
  by (auto simp: gravitateTile.simps[of i] stepOK_def Let_def)

lemma gravitateTile_settles:
  assumes "gravitateTile idx d (g, h) = Inr (g', h')"
    and "0 \<le> idx" "idx < int (boardSize g)" "boardSize g \<le> length (tiles g)"
    and "mergedSettled g d" and "P g h"
    and "\<And>g h c tile nextTile. P g h \<Longrightarrow> mergedSettled g d \<Longrightarrow> stepOK g d c \<Longrightarrow> 0 \<le> c \<Longrightarrow>
          c < int (boardSize g) \<Longrightarrow> tileAt (tiles g) c = Inr tile \<Longrightarrow>
          tileAt (tiles g) (c + d) = Inr nextTile \<Longrightarrow> isEmpty nextTile \<Longrightarrow> \<not> isEmpty tile \<Longrightarrow>
          status tile \<noteq> Merged \<Longrightarrow> P (moved g c (c + d) tile nextTile) h"
    and "\<And>g h c tile nextTile tile' nextTile' h'. P g h \<Longrightarrow> mergedSettled g d \<Longrightarrow>
          stepOK g d c \<Longrightarrow> 0 \<le> c \<Longrightarrow> c < int (boardSize g) \<Longrightarrow> tileAt (tiles g) c = Inr tile \<Longrightarrow>
          tileAt (tiles g) (c + d) = Inr nextTile \<Longrightarrow> \<not> isEmpty nextTile \<Longrightarrow>
          ableToMerge tile \<Longrightarrow> ableToMerge nextTile \<Longrightarrow> level tile = level nextTile \<Longrightarrow>
          mergeWith tile nextTile h = Inr (tile', nextTile', h') \<Longrightarrow>
          P (merged g c (c + d) tile' nextTile') h'"
  shows "P g' h' \<and> mergedSettled g' d \<and> settled g' d idx \<and>
         (\<forall>c. 0 \<le> c \<and> \<not> ahead g d idx c \<longrightarrow> cell g' c = cell g c)"
  using assms
proof (induction idx d "(g, h)" arbitrary: g h g' h' rule: gravitateTile.induct)
  case (1 idx indexChange g h)
  let ?n = "idx + indexChange"
  note run = "1.prems"(1) and i0 = "1.prems"(2) and iB = "1.prems"(3) and len = "1.prems"(4)
    and ms = "1.prems"(5) and P0 = "1.prems"(6)
  note mv = "1.prems"(7)[where c = idx] and mg = "1.prems"(8)[where c = idx]
  show ?case
  proof (cases "stepOK g indexChange idx")
    case False
    with run have "g' = g" "h' = h" by (simp_all add: gravitateTile_noStep)
    moreover have "settled g indexChange idx"
      using False settled_iff[of g indexChange idx] by (simp add: blocked_def)
    ultimately show ?thesis using ms P0 by simp
  next
    case True
    then have guard: "isInsideBoard g ?n \<and> areNeighboring g idx ?n" by (simp add: stepOK_def)
    from stepOK_range[OF True] have d0: "indexChange \<noteq> 0" and n0: "0 \<le> ?n"
      and nB: "?n < int (boardSize g)" by auto
    from run guard
    obtain nextTile0 g1 h1 nextTile tile where
      a: "tileAt (tiles g) ?n = Inr nextTile0"
      and b: "(if \<not> isEmpty nextTile0 then gravitateTile ?n indexChange (g, h) else Inr (g, h)) = Inr (g1, h1)"
      and c: "tileAt (tiles g1) ?n = Inr nextTile"
      and d: "tileAt (tiles g1) idx = Inr tile"
      and e: "(if isEmpty nextTile then
            (let (tile', nextTile') = moveTo tile nextTile
             in gravitateTile ?n indexChange
                  (g1\<lparr>tiles := (tiles g1)[nat idx := tile', nat ?n := nextTile']\<rparr>, h1))
          else if ableToMerge tile \<and> ableToMerge nextTile \<and> level tile = level nextTile then
            bindE (mergeWith tile nextTile h1) (\<lambda>(tile', nextTile', h2).
              Inr (g1\<lparr>tiles := (tiles g1)[nat idx := tile', nat ?n := nextTile'],
                      score := score g1 + (case scoreValue nextTile' of None \<Rightarrow> 0 | Some v \<Rightarrow> v)\<rparr>,
                   h2))
          else Inr (g1, h1)) = Inr (g', h')"
      by (simp add: gravitateTile.simps[of idx] Let_def bindE_Inr split: prod.splits) blast
    have R1: "P g1 h1 \<and> mergedSettled g1 indexChange \<and>
              (\<forall>c. 0 \<le> c \<and> \<not> ahead g indexChange ?n c \<longrightarrow> cell g1 c = cell g c) \<and>
              (\<not> isEmpty nextTile0 \<longrightarrow> settled g1 indexChange ?n)"
    proof (cases "isEmpty nextTile0")
      case True
      with b ms P0 show ?thesis by simp
    next
      case False
      with b have r: "gravitateTile ?n indexChange (g, h) = Inr (g1, h1)" by simp
      have "P g1 h1 \<and> mergedSettled g1 indexChange \<and> settled g1 indexChange ?n \<and>
         (\<forall>c. 0 \<le> c \<and> \<not> ahead g indexChange ?n c \<longrightarrow> cell g1 c = cell g c)"
        by (rule "1.hyps"(1)[OF refl guard a False r n0 nB len ms P0])
           (erule (9) "1.prems"(7), erule (11) "1.prems"(8))
      then show ?thesis by simp
    qed
    have sf1: "sameFrame g g1"
      using b gravitateTile_frame[of ?n indexChange g h g1 h1] by (auto split: if_splits)
    note dm1 = sameFrame_dims[OF sf1]
    from dm1 have dims1: "rows g1 = rows g" "columns g1 = columns g" by simp_all
    have st1: "stepOK g1 indexChange idx" using True by (simp add: stepOK_cong[OF dims1])
    have na: "\<not> ahead g indexChange ?n idx" by (rule not_ahead_back[OF True])
    have tl: "tile = cell g1 idx" "nextTile = cell g1 ?n"
      using c d by (simp_all add: tileAt_Inr cell_def)
    have li: "nat idx < length (tiles g1)" "nat ?n < length (tiles g1)"
      using c d by (simp_all add: tileAt_Inr)
    have ne: "idx \<noteq> ?n" using d0 by simp
    have iB1: "idx < int (boardSize g1)" "?n < int (boardSize g1)" using iB nB dm1 by simp_all
    have len1: "boardSize g1 \<le> length (tiles g1)" using len dm1 by simp
    have frame_final: "\<forall>c. 0 \<le> c \<and> \<not> ahead g indexChange idx c \<longrightarrow> cell g' c = cell g c"
      if "\<And>c. 0 \<le> c \<Longrightarrow> c \<noteq> idx \<Longrightarrow> \<not> ahead g indexChange ?n c \<Longrightarrow> cell g' c = cell g1 c"
    proof (intro allI impI)
      fix c assume c: "0 \<le> c \<and> \<not> ahead g indexChange idx c"
      then have "c \<noteq> idx" by (auto intro: ahead.here)
      moreover from c True have "\<not> ahead g indexChange ?n c" by (auto dest: ahead_step_front)
      ultimately show "cell g' c = cell g c" using that[of c] R1 c by simp
    qed
    show ?thesis
    proof (cases "isEmpty nextTile")
      case nempty: True
      define g2 where "g2 = moved g1 idx ?n tile nextTile"
      from e nempty have run2: "gravitateTile ?n indexChange (g2, h1) = Inr (g', h')"
        by (simp add: g2_def moved_def split: prod.splits)
      have c2: "cell g2 c = (if c = ?n then snd (moveTo tile nextTile)
            else if c = idx then fst (moveTo tile nextTile) else cell g1 c)" if "0 \<le> c" for c
        unfolding g2_def by (rule cell_moved[OF that i0 n0 ne li])
      have dims2: "rows g2 = rows g1" "columns g2 = columns g1" by (simp_all add: g2_def)
      have R2: "P g2 h1 \<and> mergedSettled g2 indexChange"
      proof (cases "isEmpty tile")
        case True
        then have "g2 = g1"
          using tl by (simp add: g2_def moved_def moveTo_empty cell_def)
        with R1 show ?thesis by simp
      next
        case False
        have nm: "status tile \<noteq> Merged"
        proof
          assume "status tile = Merged"
          with R1 i0 iB1 tl have "settled g1 indexChange idx" by (simp add: mergedSettled_def)
          then have "blocked g1 indexChange idx" by (simp add: settled_def ahead.here)
          with st1 False nempty tl show False by (simp add: blocked_def)
        qed
        have "P g2 h1"
          unfolding g2_def using R1 st1 i0 iB1 d c nempty False nm by (intro mv) simp_all
        moreover have "mergedSettled g2 indexChange"
        proof (rule mergedSettled_after_change[where ?g1.0 = g1 and i = idx])
          show "mergedSettled g1 indexChange" using R1 by simp
          show "rows g2 = rows g1" "columns g2 = columns g1" by (rule dims2)+
          show "stepOK g1 indexChange idx" by (rule st1)
          show "0 \<le> idx" "idx < int (boardSize g1)" using i0 iB1 by simp_all
          show "\<not> blocked g1 indexChange idx"
            using st1 False nempty tl by (simp add: blocked_def)
          show "cell g2 c = cell g1 c" if "0 \<le> c" "c \<noteq> idx" "c \<noteq> ?n" for c
            using that c2 by simp
          show "status (cell g2 idx) \<noteq> Merged"
            using c2[OF i0] ne moveTo_nonempty[OF False, of nextTile] by (simp add: isEmpty_def)
          show "settled g2 indexChange ?n" if "status (cell g2 ?n) = Merged"
            using that c2[OF n0] moveTo_nonempty[OF False, of nextTile] by simp
        qed
        ultimately show ?thesis by simp
      qed
      have "P g' h' \<and> mergedSettled g' indexChange \<and> settled g' indexChange ?n \<and>
         (\<forall>c. 0 \<le> c \<and> \<not> ahead g2 indexChange ?n c \<longrightarrow> cell g' c = cell g2 c)"
      proof -
        obtain tile' nextTile' where m: "moveTo tile nextTile = (tile', nextTile')" by force
        have g2': "g2 = g1\<lparr>tiles := (tiles g1)[nat idx := tile', nat ?n := nextTile']\<rparr>"
          by (simp add: g2_def moved_def m)
        have pre: "0 \<le> ?n" "?n < int (boardSize g2)" "boardSize g2 \<le> length (tiles g2)"
          using n0 iB1 len1 by (simp_all add: g2_def)
        show ?thesis
          unfolding g2'
          by (rule "1.hyps"(2)[OF refl guard a b refl c d nempty refl m[symmetric]
                run2[unfolded g2'] pre(1) pre(2)[unfolded g2'] pre(3)[unfolded g2']
                conjunct2[OF R2, unfolded g2'] conjunct1[OF R2, unfolded g2']])
             (erule (9) "1.prems"(7), erule (11) "1.prems"(8))
      qed
      then have R3: "P g' h'" "mergedSettled g' indexChange" "settled g' indexChange ?n"
        and fr3: "\<And>c. 0 \<le> c \<Longrightarrow> \<not> ahead g indexChange ?n c \<Longrightarrow> cell g' c = cell g2 c"
        by (simp_all add: ahead_cong[OF dims2[unfolded dims1]])
      have sf3: "sameFrame g2 g'" using gravitateTile_frame[OF run2] by simp
      note dm3 = sameFrame_dims[OF sf3]
      have dims3: "rows g' = rows g" "columns g' = columns g" using dm3 dims2 dims1 by simp_all
      have "isEmpty (cell g' idx)"
      proof -
        have "cell g' idx = fst (moveTo tile nextTile)"
          using fr3[OF i0 na] c2[OF i0] ne by simp
        then show ?thesis
          using moveTo_nonempty[of tile nextTile] moveTo_empty[of tile nextTile]
          by (cases "isEmpty tile") auto
      qed
      then have "blocked g' indexChange idx" by (simp add: blocked_def)
      with R3(3) have si: "settled g' indexChange idx"
        using settled_iff[of g' indexChange idx] by simp
      have cg: "cell g' c = cell g1 c"
        if "0 \<le> c" "c \<noteq> idx" "\<not> ahead g indexChange ?n c" for c
      proof -
        from that(3) have "c \<noteq> ?n" by (auto intro: ahead.here)
        with fr3[OF that(1,3)] c2[OF that(1)] that(2) show ?thesis by simp
      qed
      have "\<forall>c. 0 \<le> c \<and> \<not> ahead g indexChange idx c \<longrightarrow> cell g' c = cell g c"
        by (rule frame_final) (rule cg)
      with R3 si show ?thesis by blast
    next
      case nfull: False
      have nt0: "\<not> isEmpty nextTile0"
      proof
        assume "isEmpty nextTile0"
        with b a c nfull show False by auto
      qed
      with R1 have s1: "settled g1 indexChange ?n" by simp
      show ?thesis
      proof (cases "ableToMerge tile \<and> ableToMerge nextTile \<and> level tile = level nextTile")
        case True
        with e nfull obtain tile' nextTile' where
          mw: "mergeWith tile nextTile h1 = Inr (tile', nextTile', h')" and
          g': "g' = merged g1 idx ?n tile' nextTile'"
          by (auto simp: bindE_Inr merged_def)
        from True have te: "\<not> isEmpty tile" by (simp add: ableToMerge_def isEmpty_def)
        from mergeWith_Inr[OF mw] te have
          t': "tile' = reset tile" and nt': "status nextTile' = Merged" by simp_all
        have c2: "cell g' c = (if c = ?n then nextTile' else if c = idx then tile' else cell g1 c)"
          if "0 \<le> c" for c
          unfolding g' by (rule cell_merged[OF that i0 n0 ne li])
        have dims2: "rows g' = rows g1" "columns g' = columns g1" by (simp_all add: g')
        have unch: "cell g' c = cell g1 c" if "0 \<le> c" "c \<noteq> idx" "c \<noteq> ?n" for c
          using that c2 by simp
        have sj: "settled g' indexChange ?n"
        proof (rule settled_after_merge[where ?g1.0 = g1 and i = idx])
          show "settled g1 indexChange ?n" by (rule s1)
          show "rows g' = rows g1" "columns g' = columns g1" by (rule dims2)+
          show "stepOK g1 indexChange idx" by (rule st1)
          show "0 \<le> idx" by (rule i0)
          show "cell g' c = cell g1 c" if "0 \<le> c" "c \<noteq> idx" "c \<noteq> ?n" for c
            using that by (rule unch)
          show "\<not> isEmpty (cell g1 ?n)" using nfull tl by simp
          show "status (cell g' ?n) = Merged" using c2[OF n0] nt' by simp
        qed
        have Pg: "P g' h'"
          unfolding g' using R1 st1 i0 iB1 d c nfull True mw by (intro mg) simp_all
        have msg: "mergedSettled g' indexChange"
        proof (rule mergedSettled_after_change[where ?g1.0 = g1 and i = idx])
          show "mergedSettled g1 indexChange" using R1 by simp
          show "rows g' = rows g1" "columns g' = columns g1" by (rule dims2)+
          show "stepOK g1 indexChange idx" by (rule st1)
          show "0 \<le> idx" "idx < int (boardSize g1)" using i0 iB1 by simp_all
          show "\<not> blocked g1 indexChange idx"
            using st1 te nfull True tl by (simp add: blocked_def)
          show "cell g' c = cell g1 c" if "0 \<le> c" "c \<noteq> idx" "c \<noteq> ?n" for c
            using that by (rule unch)
          show "status (cell g' idx) \<noteq> Merged"
            using c2[OF i0] ne t' by (simp add: reset_def)
          show "settled g' indexChange ?n" if "status (cell g' ?n) = Merged"
            by (rule sj)
        qed
        have "isEmpty (cell g' idx)"
          using c2[OF i0] ne t' by (simp add: reset_def isEmpty_def)
        then have "blocked g' indexChange idx" by (simp add: blocked_def)
        with sj have si: "settled g' indexChange idx"
          using settled_iff[of g' indexChange idx] by simp
        have cg: "cell g' c = cell g1 c"
          if "0 \<le> c" "c \<noteq> idx" "\<not> ahead g indexChange ?n c" for c
        proof -
          from that(3) have "c \<noteq> ?n" by (auto intro: ahead.here)
          with unch[OF that(1,2)] show ?thesis by simp
        qed
        have "\<forall>c. 0 \<le> c \<and> \<not> ahead g indexChange idx c \<longrightarrow> cell g' c = cell g c"
          by (rule frame_final) (rule cg)
        with Pg msg si show ?thesis by blast
      next
        case False
        with e nfull have g': "g' = g1" "h' = h1" by simp_all
        have "blocked g1 indexChange idx"
          using False nfull tl by (auto simp: blocked_def)
        with s1 st1 have "settled g1 indexChange idx"
          using settled_iff[of g1 indexChange idx] by simp
        then have si: "settled g' indexChange idx" using g' by simp
        have "\<forall>c. 0 \<le> c \<and> \<not> ahead g indexChange idx c \<longrightarrow> cell g' c = cell g c"
          by (rule frame_final) (simp add: g')
        with R1 g' si show ?thesis by blast
      qed
    qed
  qed
qed


subsection \<open>Ownership of the history arrays\<close>

lemma length_push [simp]: "length (push r v h) = length h"
  by (simp add: push_def)

lemma arr_push:
  "r < length h \<Longrightarrow> arr (push r v h) r' = (if r' = r then arr h r @ [v] else arr h r')"
  by (simp add: arr_def push_def)

lemma take_push: "n \<le> r \<Longrightarrow> take n (push r v h) = take n h"
  by (simp add: push_def take_update_cancel)

lemma mergeWith_heap:
  assumes "mergeWith a b h = Inr (a', b', h')" "\<not> isEmpty a"
  shows "\<exists>ti si tl' sl. prevIndex b = Some ti \<and> prevIndex a = Some si \<and>
           prevLevel b = Some tl' \<and> prevLevel a = Some sl \<and>
           h' = push tl' (first (push ti (first h si) h) sl) (push ti (first h si) h) \<and>
           a' = reset a \<and> b' = b\<lparr>level := Some (levelNum b + 1), status := Merged\<rparr>"
  using assms
  by (auto simp: mergeWith_def Let_def split: option.splits)

definition inBoard :: "GameState \<Rightarrow> int \<Rightarrow> bool" where
  "inBoard g k = (0 \<le> k \<and> k < int (boardSize g))"

text \<open>The history arrays of a tile, read through the store.\<close>

definition histI :: "heap \<Rightarrow> Tile \<Rightarrow> nat option list" where
  "histI h t = (case prevIndex t of None \<Rightarrow> [] | Some r \<Rightarrow> arr h r)"

definition histL :: "heap \<Rightarrow> Tile \<Rightarrow> nat option list" where
  "histL h t = (case prevLevel t of None \<Rightarrow> [] | Some r \<Rightarrow> arr h r)"

text \<open>
  Every non-empty tile of the board holds two arrays of its own, both allocated at or
  after address \<open>N\<close>: no array is shared by two tiles or by the two fields of one tile.
\<close>

definition owned :: "nat \<Rightarrow> GameState \<Rightarrow> heap \<Rightarrow> bool" where
  "owned N g h =
     ((\<forall>k. inBoard g k \<and> \<not> isEmpty (cell g k) \<longrightarrow>
         (\<exists>ri rl. prevIndex (cell g k) = Some ri \<and> prevLevel (cell g k) = Some rl \<and>
            N \<le> ri \<and> ri < length h \<and> N \<le> rl \<and> rl < length h \<and> ri \<noteq> rl)) \<and>
      (\<forall>k k'. inBoard g k \<and> inBoard g k' \<and> k \<noteq> k' \<and>
         \<not> isEmpty (cell g k) \<and> \<not> isEmpty (cell g k') \<longrightarrow>
           prevIndex (cell g k) \<noteq> prevIndex (cell g k') \<and>
           prevIndex (cell g k) \<noteq> prevLevel (cell g k') \<and>
           prevLevel (cell g k) \<noteq> prevLevel (cell g k')))"

lemma inBoard_moved [simp]: "inBoard (moved g i j a b) k = inBoard g k"
  by (simp add: inBoard_def)

lemma inBoard_merged [simp]: "inBoard (merged g i j a b) k = inBoard g k"
  by (simp add: inBoard_def)

lemma stepOK_inBoard: "stepOK g d c \<Longrightarrow> inBoard g (c + d) \<and> c + d \<noteq> c"
  using stepOK_range[of g d c] by (simp add: inBoard_def)

text \<open>The two steps in terms of cells.\<close>

lemma tileAt_cell: "tileAt (tiles g) c = Inr t \<Longrightarrow> t = cell g c"
  by (simp add: tileAt_Inr cell_def)

lemma moved_cells:
  assumes "stepOK g d c" "0 \<le> c" "tileAt (tiles g) c = Inr tile"
    "tileAt (tiles g) (c + d) = Inr nextTile" "\<not> isEmpty tile" "inBoard g k"
  shows "cell (moved g c (c + d) tile nextTile) k =
           (if k = c + d then nextTile\<lparr>level := level tile, prevLevel := prevLevel tile,
                                        prevIndex := prevIndex tile, status := Moved\<rparr>
            else if k = c then reset tile else cell g k)"
proof -
  from stepOK_range[OF assms(1)] have r: "0 \<le> c + d" "c \<noteq> c + d" by auto
  from assms(3,4) have l: "nat c < length (tiles g)" "nat (c + d) < length (tiles g)"
    by (simp_all add: tileAt_Inr)
  from assms(6) have "0 \<le> k" by (simp add: inBoard_def)
  from cell_moved[OF this assms(2) r(1) r(2) l] assms(5)
  show ?thesis
    by (simp add: moveTo_def)
qed

lemma merged_cells:
  assumes "stepOK g d c" "0 \<le> c" "tileAt (tiles g) c = Inr tile"
    "tileAt (tiles g) (c + d) = Inr nextTile" "inBoard g k"
  shows "cell (merged g c (c + d) tile' nextTile') k =
           (if k = c + d then nextTile' else if k = c then tile' else cell g k)"
proof -
  from stepOK_range[OF assms(1)] have r: "0 \<le> c + d" "c \<noteq> c + d" by auto
  from assms(3,4) have l: "nat c < length (tiles g)" "nat (c + d) < length (tiles g)"
    by (simp_all add: tileAt_Inr)
  from assms(5) have "0 \<le> k" by (simp add: inBoard_def)
  from cell_merged[OF this assms(2) r(1) r(2) l]
  show ?thesis .
qed

lemma owned_moved:
  assumes o: "owned N g h" and s: "stepOK g d c" "0 \<le> c" "c < int (boardSize g)"
    and t: "tileAt (tiles g) c = Inr tile" "tileAt (tiles g) (c + d) = Inr nextTile"
    and e: "isEmpty nextTile" "\<not> isEmpty tile"
  shows "owned N (moved g c (c + d) tile nextTile) h"
proof -
  let ?g' = "moved g c (c + d) tile nextTile"
  note mc = moved_cells[OF s(1,2) t e(2)]
  note tc = tileAt_cell[OF t(1)] tileAt_cell[OF t(2)]
  have ic: "inBoard g c" "inBoard g (c + d)" "c + d \<noteq> c"
    using s stepOK_inBoard[OF s(1)] by (simp_all add: inBoard_def)
  have ne: "\<not> isEmpty (cell ?g' k) \<longleftrightarrow> (k = c + d \<or> (k \<noteq> c \<and> \<not> isEmpty (cell g k)))"
    if "inBoard g k" for k
    using mc[OF that] e tc by (auto simp: isEmpty_def reset_def)
  have refs: "prevIndex (cell ?g' k) = prevIndex (cell g (if k = c + d then c else k)) \<and>
              prevLevel (cell ?g' k) = prevLevel (cell g (if k = c + d then c else k))"
    if "inBoard g k" "k \<noteq> c" for k
    using mc[OF that(1)] that(2) tc by simp
  show ?thesis
    unfolding owned_def
  proof (intro conjI allI impI)
    fix k assume k: "inBoard ?g' k \<and> \<not> isEmpty (cell ?g' k)"
    then have kb: "inBoard g k" by simp
    with k ne[OF kb] ic(3) have kc: "k \<noteq> c" by auto
    let ?k = "if k = c + d then c else k"
    have "inBoard g ?k \<and> \<not> isEmpty (cell g ?k)"
      using k kb ne[OF kb] ic e tc by auto
    with o refs[OF kb kc] show "\<exists>ri rl. prevIndex (cell ?g' k) = Some ri \<and>
        prevLevel (cell ?g' k) = Some rl \<and> N \<le> ri \<and> ri < length h \<and> N \<le> rl \<and>
        rl < length h \<and> ri \<noteq> rl"
      unfolding owned_def by metis
  next
    fix k k'
    assume a: "inBoard ?g' k \<and> inBoard ?g' k' \<and> k \<noteq> k' \<and>
         \<not> isEmpty (cell ?g' k) \<and> \<not> isEmpty (cell ?g' k')"
    then have kb: "inBoard g k" "inBoard g k'" by simp_all
    with a ne[OF kb(1)] ne[OF kb(2)] ic(3) have kc: "k \<noteq> c" "k' \<noteq> c" by auto
    let ?k = "if k = c + d then c else k"
    let ?k' = "if k' = c + d then c else k'"
    have "inBoard g ?k \<and> inBoard g ?k' \<and> ?k \<noteq> ?k' \<and> \<not> isEmpty (cell g ?k) \<and> \<not> isEmpty (cell g ?k')"
      using a kb kc ne[OF kb(1)] ne[OF kb(2)] ic e tc by auto
    with o have "prevIndex (cell g ?k) \<noteq> prevIndex (cell g ?k') \<and>
           prevIndex (cell g ?k) \<noteq> prevLevel (cell g ?k') \<and>
           prevLevel (cell g ?k) \<noteq> prevLevel (cell g ?k')"
      unfolding owned_def by blast
    with refs[OF kb(1) kc(1)] refs[OF kb(2) kc(2)]
    show "prevIndex (cell ?g' k) \<noteq> prevIndex (cell ?g' k')"
      "prevIndex (cell ?g' k) \<noteq> prevLevel (cell ?g' k')"
      "prevLevel (cell ?g' k) \<noteq> prevLevel (cell ?g' k')"
      by simp_all
  qed
qed


lemma owned_merged:
  assumes o: "owned N g h" and s: "stepOK g d c" "0 \<le> c" "c < int (boardSize g)"
    and t: "tileAt (tiles g) c = Inr tile" "tileAt (tiles g) (c + d) = Inr nextTile"
    and e: "\<not> isEmpty nextTile" "\<not> isEmpty tile"
    and m: "mergeWith tile nextTile h = Inr (tile', nextTile', h')"
  shows "owned N (merged g c (c + d) tile' nextTile') h'"
proof -
  let ?g' = "merged g c (c + d) tile' nextTile'"
  note mc = merged_cells[OF s(1,2) t, of _ tile' nextTile']
  note tc = tileAt_cell[OF t(1)] tileAt_cell[OF t(2)]
  note mw = mergeWith_Inr[OF m]
  have ic: "inBoard g c" "inBoard g (c + d)" "c + d \<noteq> c"
    using s stepOK_inBoard[OF s(1)] by (simp_all add: inBoard_def)
  have ne: "\<not> isEmpty (cell ?g' k) \<longleftrightarrow> (k \<noteq> c \<and> \<not> isEmpty (cell g k))"
    if "inBoard g k" for k
    using mc[OF that] e tc mw ic(3) by (auto simp: isEmpty_def reset_def)
  have refs: "prevIndex (cell ?g' k) = prevIndex (cell g k) \<and>
              prevLevel (cell ?g' k) = prevLevel (cell g k)"
    if "inBoard g k" "k \<noteq> c" for k
    using mc[OF that(1)] that(2) tc mw e by simp
  have lh: "length h' = length h" using mw by simp
  show ?thesis
    unfolding owned_def
  proof (intro conjI allI impI)
    fix k assume k: "inBoard ?g' k \<and> \<not> isEmpty (cell ?g' k)"
    then have kb: "inBoard g k" by simp
    with k ne[OF kb] have kc: "k \<noteq> c" "\<not> isEmpty (cell g k)" by auto
    with o kb refs[OF kb kc(1)] lh show "\<exists>ri rl. prevIndex (cell ?g' k) = Some ri \<and>
        prevLevel (cell ?g' k) = Some rl \<and> N \<le> ri \<and> ri < length h' \<and> N \<le> rl \<and>
        rl < length h' \<and> ri \<noteq> rl"
      unfolding owned_def by metis
  next
    fix k k'
    assume a: "inBoard ?g' k \<and> inBoard ?g' k' \<and> k \<noteq> k' \<and>
         \<not> isEmpty (cell ?g' k) \<and> \<not> isEmpty (cell ?g' k')"
    then have kb: "inBoard g k" "inBoard g k'" by simp_all
    with a ne[OF kb(1)] ne[OF kb(2)] have kc: "k \<noteq> c" "k' \<noteq> c"
      "\<not> isEmpty (cell g k)" "\<not> isEmpty (cell g k')" by auto
    with o a kb have "prevIndex (cell g k) \<noteq> prevIndex (cell g k') \<and>
           prevIndex (cell g k) \<noteq> prevLevel (cell g k') \<and>
           prevLevel (cell g k) \<noteq> prevLevel (cell g k')"
      unfolding owned_def by blast
    with refs[OF kb(1) kc(1)] refs[OF kb(2) kc(2)]
    show "prevIndex (cell ?g' k) \<noteq> prevIndex (cell ?g' k')"
      "prevIndex (cell ?g' k) \<noteq> prevLevel (cell ?g' k')"
      "prevLevel (cell ?g' k) \<noteq> prevLevel (cell ?g' k')"
      by simp_all
  qed
qed

text \<open>What the histories hold: the indices and levels of non-empty tiles of the board \<open>g0\<close>
  as it was before the pass.\<close>

definition lvl :: "nat option \<Rightarrow> nat" where
  "lvl l = (case l of None \<Rightarrow> 0 | Some n \<Rightarrow> n)"

definition src :: "GameState \<Rightarrow> nat option \<Rightarrow> nat option \<Rightarrow> bool" where
  "src g0 a l = (\<exists>p. inBoard g0 p \<and> \<not> isEmpty (cell g0 p) \<and> a = Some (index (cell g0 p)) \<and>
                     l = level (cell g0 p))"

definition histAt :: "GameState \<Rightarrow> heap \<Rightarrow> Tile \<Rightarrow> bool" where
  "histAt g0 h t =
     (if status t = Merged
      then (\<exists>a b l. histI h t = [a, b] \<and> histL h t = [l, l] \<and>
              level t = Some (lvl l + 1) \<and> src g0 a l \<and> src g0 b l)
      else (\<exists>a. histI h t = [a] \<and> histL h t = [level t] \<and> src g0 a (level t)))"

definition histOK :: "GameState \<Rightarrow> GameState \<Rightarrow> heap \<Rightarrow> bool" where
  "histOK g0 g h = (\<forall>k. inBoard g k \<and> \<not> isEmpty (cell g k) \<longrightarrow> histAt g0 h (cell g k))"

lemma histAt_plain:
  "histAt g0 h t \<Longrightarrow> status t \<noteq> Merged \<Longrightarrow>
     \<exists>a. histI h t = [a] \<and> histL h t = [level t] \<and> src g0 a (level t)"
  by (simp add: histAt_def)

lemma histAt_cong:
  "histI h' t = histI h t \<Longrightarrow> histL h' t = histL h t \<Longrightarrow> histAt g0 h' t = histAt g0 h t"
  by (simp add: histAt_def)

lemma histOK_moved:
  assumes o: "histOK g0 g h" and s: "stepOK g d c" "0 \<le> c" "c < int (boardSize g)"
    and t: "tileAt (tiles g) c = Inr tile" "tileAt (tiles g) (c + d) = Inr nextTile"
    and e: "isEmpty nextTile" "\<not> isEmpty tile" "status tile \<noteq> Merged"
  shows "histOK g0 (moved g c (c + d) tile nextTile) h"
proof -
  let ?g' = "moved g c (c + d) tile nextTile"
  note mc = moved_cells[OF s(1,2) t e(2)]
  note tc = tileAt_cell[OF t(1)] tileAt_cell[OF t(2)]
  have ic: "inBoard g c" "inBoard g (c + d)" "c + d \<noteq> c"
    using s stepOK_inBoard[OF s(1)] by (simp_all add: inBoard_def)
  have "histAt g0 h tile" using o ic(1) e(2) tc by (simp add: histOK_def)
  from histAt_plain[OF this e(3)] obtain a where
    a: "histI h tile = [a]" "histL h tile = [level tile]" "src g0 a (level tile)" by blast
  show ?thesis
    unfolding histOK_def
  proof (intro allI impI)
    fix k assume k: "inBoard ?g' k \<and> \<not> isEmpty (cell ?g' k)"
    then have kb: "inBoard g k" by simp
    show "histAt g0 h (cell ?g' k)"
    proof (cases "k = c + d")
      case True
      with mc[OF kb] a show ?thesis by (simp add: histAt_def histI_def histL_def)
    next
      case False
      with k mc[OF kb] have "k \<noteq> c" "cell ?g' k = cell g k"
        by (auto simp: isEmpty_def reset_def)
      with o k kb show ?thesis unfolding histOK_def by simp
    qed
  qed
qed

lemma first_arr: "arr h r = v # vs \<Longrightarrow> first h r = v"
  by (simp add: first_def)

lemma histOK_merged:
  assumes o: "histOK g0 g h" and ow: "owned N g h"
    and s: "stepOK g d c" "0 \<le> c" "c < int (boardSize g)"
    and t: "tileAt (tiles g) c = Inr tile" "tileAt (tiles g) (c + d) = Inr nextTile"
    and e: "\<not> isEmpty nextTile" "ableToMerge tile" "ableToMerge nextTile"
      "level tile = level nextTile"
    and m: "mergeWith tile nextTile h = Inr (tile', nextTile', h')"
  shows "histOK g0 (merged g c (c + d) tile' nextTile') h'"
proof -
  let ?g' = "merged g c (c + d) tile' nextTile'"
  note mc = merged_cells[OF s(1,2) t, of _ tile' nextTile']
  note tc = tileAt_cell[OF t(1)] tileAt_cell[OF t(2)]
  have te: "\<not> isEmpty tile" "status tile \<noteq> Merged" "status nextTile \<noteq> Merged"
    using e by (simp_all add: ableToMerge_def isEmpty_def)
  have ic: "inBoard g c" "inBoard g (c + d)" "c + d \<noteq> c"
    using s stepOK_inBoard[OF s(1)] by (simp_all add: inBoard_def)
  from mergeWith_heap[OF m te(1)] obtain ti si tl' sl where
    r: "prevIndex nextTile = Some ti" "prevIndex tile = Some si"
       "prevLevel nextTile = Some tl'" "prevLevel tile = Some sl" and
    h': "h' = push tl' (first (push ti (first h si) h) sl) (push ti (first h si) h)" and
    t': "tile' = reset tile" "nextTile' = nextTile\<lparr>level := Some (levelNum nextTile + 1), status := Merged\<rparr>"
    by blast
  have "histAt g0 h tile" using o ic(1) te(1) tc by (simp add: histOK_def)
  from histAt_plain[OF this te(2)] obtain a where
    a: "histI h tile = [a]" "histL h tile = [level tile]" "src g0 a (level tile)" by blast
  have "histAt g0 h nextTile" using o ic(2) e(1) tc by (simp add: histOK_def)
  from histAt_plain[OF this te(3)] obtain b where
    b: "histI h nextTile = [b]" "histL h nextTile = [level nextTile]" "src g0 b (level nextTile)"
    by blast
  have ow1: "\<exists>ri rl. prevIndex (cell g k) = Some ri \<and> prevLevel (cell g k) = Some rl \<and>
            N \<le> ri \<and> ri < length h \<and> N \<le> rl \<and> rl < length h \<and> ri \<noteq> rl"
    if "inBoard g k" "\<not> isEmpty (cell g k)" for k
    using ow that by (simp add: owned_def)
  have ow2: "prevIndex (cell g k) \<noteq> prevIndex (cell g k') \<and>
           prevIndex (cell g k) \<noteq> prevLevel (cell g k') \<and>
           prevLevel (cell g k) \<noteq> prevLevel (cell g k')"
    if "inBoard g k" "inBoard g k'" "k \<noteq> k'" "\<not> isEmpty (cell g k)" "\<not> isEmpty (cell g k')" for k k'
    using ow that by (simp add: owned_def)
  from ow2[OF ic(1) ic(2)] ow2[OF ic(2) ic(1)] ic(3) e(1) te(1) tc r
  have d1: "ti \<noteq> si" "ti \<noteq> sl" "tl' \<noteq> sl" "tl' \<noteq> si" by auto
  from ow1[OF ic(2)] e(1) tc r
  have d2: "ti \<noteq> tl'" "ti < length h" "tl' < length h" "N \<le> ti" "N \<le> tl'" by auto
  define h1 where "h1 = push ti (first h si) h"
  have f1: "first h si = a" using a(1) r(2) by (simp add: histI_def first_arr)
  have "arr h1 sl = arr h sl" unfolding h1_def using d1 d2 by (simp add: arr_push)
  then have f2: "first h1 sl = level tile"
    using a(2) r(4) by (simp add: histL_def first_def)
  have h'': "h' = push tl' (level tile) h1" unfolding h' h1_def[symmetric] f2 ..
  have A: "arr h' x = (if x = tl' then arr h tl' @ [level tile]
                        else if x = ti then arr h ti @ [a] else arr h x)" for x
    unfolding h'' h1_def f1 using d2 by (simp add: arr_push)
  show ?thesis
    unfolding histOK_def
  proof (intro allI impI)
    fix k assume k: "inBoard ?g' k \<and> \<not> isEmpty (cell ?g' k)"
    then have kb: "inBoard g k" by simp
    show "histAt g0 h' (cell ?g' k)"
    proof (cases "k = c + d")
      case True
      have "histI h' (cell ?g' k) = [b, a]"
        using True mc[OF kb] t' r b(1) d2 A by (simp add: histI_def)
      moreover have "histL h' (cell ?g' k) = [level tile, level tile]"
        using True mc[OF kb] t' r b(2) e(4) d2 A by (simp add: histL_def)
      moreover have "level (cell ?g' k) = Some (lvl (level tile) + 1)"
        using True mc[OF kb] t' e(4) by (simp add: levelNum_def lvl_def)
      moreover have "status (cell ?g' k) = Merged" using True mc[OF kb] t' by simp
      ultimately show ?thesis using a(3) b(3) e(4) by (auto simp: histAt_def)
    next
      case False
      with k mc[OF kb] t' have kc: "k \<noteq> c" "cell ?g' k = cell g k"
        by (auto simp: isEmpty_def reset_def)
      with k have nk: "\<not> isEmpty (cell g k)" by simp
      from ow2[OF kb ic(2) False nk] ow2[OF ic(2) kb _ _ nk] False e(1) tc r
      have "prevIndex (cell g k) \<noteq> Some ti \<and> prevIndex (cell g k) \<noteq> Some tl' \<and>
            prevLevel (cell g k) \<noteq> Some tl' \<and> prevLevel (cell g k) \<noteq> Some ti"
        by auto
      then have "histI h' (cell g k) = histI h (cell g k)" "histL h' (cell g k) = histL h (cell g k)"
        using A by (auto simp: histI_def histL_def split: option.splits)
      from histAt_cong[OF this] o kb nk kc show ?thesis unfolding histOK_def by simp
    qed
  qed
qed

subsection \<open>Frame of a slide\<close>

lemma prepareTile_frame:
  assumes "prepareTile i (g, h) = Inr (g', h')"
  shows "sameFrame g g' \<and> score g' = score g \<and> length h \<le> length h' \<and> take (length h) h' = h \<and>
         (\<forall>j < length (tiles g). level (tiles g' ! j) = level (tiles g ! j))"
  using assms
  by (auto simp: prepareTile_def bindE_Inr tileAt_Inr prepareForMove_def alloc_def sameFrame_def
        nth_list_update Let_def split: if_splits)

lemma gravitate_frame:
  assumes "gravitate direction (g, h) = Inr (g', h')"
  shows "sameFrame g g' \<and> score g \<le> score g' \<and> length h \<le> length h'"
proof -
  from assms obtain s1 where
    a: "forE [0..<boardSize g] prepareTile (g, h) = Inr s1" and
    b: "forE [0..<boardSize g] (\<lambda>i. gravitateTile (int i) (indexChange g direction)) s1 = Inr (g', h')"
    by (auto simp: gravitate_def bindE_Inr)
  let ?P = "\<lambda>s. sameFrame g (fst s) \<and> score g \<le> score (fst s) \<and> length h \<le> length (snd s)"
  have "?P s1"
  proof (rule forE_invariant[OF a, where P = ?P], goal_cases)
    case 1 show ?case by simp
  next
    case (2 i s s')
    then show ?case using prepareTile_frame[of i "fst s" "snd s" "fst s'" "snd s'"]
      by (auto intro: sameFrame_trans)
  qed
  have "?P (g', h')"
  proof (rule forE_invariant[OF b, where P = ?P], goal_cases)
    case 1 show ?case by (rule \<open>?P s1\<close>)
  next
    case (2 i s s')
    then show ?case using gravitateTile_frame[of "int i" "indexChange g direction" "fst s" "snd s" "fst s'" "snd s'"]
      by (auto intro: sameFrame_trans)
  qed
  then show ?thesis by simp
qed

subsection \<open>The score of a pass\<close>

text \<open>The points of a merged tile, summed over the cells of the board.\<close>

definition mergedValue :: "Tile \<Rightarrow> int" where
  "mergedValue t = (if status t = Merged then 2 ^ levelNum t else 0)"

definition mergedSum :: "GameState \<Rightarrow> int" where
  "mergedSum g = sum_list (map (\<lambda>k. mergedValue (cell g (int k))) [0..<boardSize g])"

lemma mergedSum_sum: "mergedSum g = (\<Sum>k<boardSize g. mergedValue (cell g (int k)))"
  by (simp add: mergedSum_def interv_sum_list_conv_sum_set_nat atLeast0LessThan)

lemma sum_bump:
  fixes f :: "nat \<Rightarrow> int"
  assumes "j < n" "\<And>k. k < n \<Longrightarrow> f' k = f k + (if k = j then v else 0)"
  shows "sum f' {..<n} = sum f {..<n} + v"
proof -
  have "sum f' {..<n} = (\<Sum>k<n. f k + (if k = j then v else 0))"
    using assms(2) by (intro sum.cong) simp_all
  also have "\<dots> = sum f {..<n} + (\<Sum>k<n. if k = j then v else 0)"
    by (simp add: sum.distrib)
  also have "(\<Sum>k<n. if k = j then v else 0) = v"
    using assms(1) by simp
  finally show ?thesis .
qed

lemma mergedSum_moved:
  assumes s: "stepOK g d c" "0 \<le> c" "c < int (boardSize g)"
    and t: "tileAt (tiles g) c = Inr tile" "tileAt (tiles g) (c + d) = Inr nextTile"
    and e: "isEmpty nextTile" "\<not> isEmpty tile" "status tile \<noteq> Merged"
  shows "mergedSum (moved g c (c + d) tile nextTile) = mergedSum g"
proof -
  note mc = moved_cells[OF s(1,2) t e(2)]
  note tc = tileAt_cell[OF t(1)] tileAt_cell[OF t(2)]
  have "mergedValue (cell (moved g c (c + d) tile nextTile) (int k)) = mergedValue (cell g (int k))"
    if "k < boardSize g" for k
  proof -
    have "inBoard g (int k)" using that by (simp add: inBoard_def)
    from mc[OF this] e tc show ?thesis
      by (auto simp: mergedValue_def reset_def isEmpty_def)
  qed
  then show ?thesis by (simp add: mergedSum_sum)
qed

lemma mergedSum_merged:
  assumes s: "stepOK g d c" "0 \<le> c" "c < int (boardSize g)"
    and t: "tileAt (tiles g) c = Inr tile" "tileAt (tiles g) (c + d) = Inr nextTile"
    and e: "ableToMerge tile" "ableToMerge nextTile"
    and m: "mergeWith tile nextTile h = Inr (tile', nextTile', h')"
  shows "mergedSum (merged g c (c + d) tile' nextTile') =
           mergedSum g + (case scoreValue nextTile' of None \<Rightarrow> 0 | Some v \<Rightarrow> v)"
proof -
  let ?v = "case scoreValue nextTile' of None \<Rightarrow> 0 | Some v \<Rightarrow> v"
  note mc = merged_cells[OF s(1,2) t, of _ tile' nextTile']
  note tc = tileAt_cell[OF t(1)] tileAt_cell[OF t(2)]
  have te: "\<not> isEmpty tile" "status tile \<noteq> Merged" "status nextTile \<noteq> Merged"
    using e by (simp_all add: ableToMerge_def isEmpty_def)
  note mw = mergeWith_Inr[OF m]
  from stepOK_range[OF s(1)] have r: "0 \<le> c + d" "c + d < int (boardSize g)" "c + d \<noteq> c" by auto
  have v: "mergedValue nextTile' = ?v"
    using mw te by (simp add: mergedValue_def scoreValue_def isEmpty_def)
  have "mergedValue (cell (merged g c (c + d) tile' nextTile') (int k)) =
          mergedValue (cell g (int k)) + (if k = nat (c + d) then ?v else 0)"
    if "k < boardSize g" for k
  proof -
    have "inBoard g (int k)" using that by (simp add: inBoard_def)
    from mc[OF this] mw te tc r v show ?thesis
      by (auto simp: mergedValue_def reset_def)
  qed
  from sum_bump[of "nat (c + d)" "boardSize g", OF _ this] r
  show ?thesis by (simp add: mergedSum_sum)
qed

text \<open>
  What a pass keeps, step by step: the arrays are owned, hold the history of the pass,
  leave the store below \<open>N\<close> alone, and the score is what the merged tiles are worth.
\<close>

definition passInv :: "nat \<Rightarrow> heap \<Rightarrow> int \<Rightarrow> GameState \<Rightarrow> GameState \<Rightarrow> heap \<Rightarrow> bool" where
  "passInv N h0 s0 g0 g h =
     (owned N g h \<and> histOK g0 g h \<and> take N h = h0 \<and> score g = s0 + mergedSum g)"

lemma gravitateTile_passInv:
  assumes run: "gravitateTile idx d (g, h) = Inr (g', h')"
    and i: "0 \<le> idx" "idx < int (boardSize g)" "boardSize g \<le> length (tiles g)"
    and ms: "mergedSettled g d" and inv: "passInv N h0 s0 g0 g h"
  shows "passInv N h0 s0 g0 g' h' \<and> mergedSettled g' d"
proof -
  have "passInv N h0 s0 g0 g' h' \<and> mergedSettled g' d \<and> settled g' d idx \<and>
         (\<forall>c. 0 \<le> c \<and> \<not> ahead g d idx c \<longrightarrow> cell g' c = cell g c)"
  proof (rule gravitateTile_settles[OF run i ms, where P = "passInv N h0 s0 g0"], goal_cases)
    case 1
    show ?case by (rule inv)
  next
    case (2 g h c tile nextTile)
    from 2(1) have "owned N g h" "histOK g0 g h" "take N h = h0" "score g = s0 + mergedSum g"
      by (simp_all add: passInv_def)
    with owned_moved[OF this(1) 2(3,4,5,6,7,8,9)] histOK_moved[OF this(2) 2(3,4,5,6,7,8,9,10)]
      mergedSum_moved[OF 2(3,4,5,6,7,8,9,10)]
    show ?case by (simp add: passInv_def)
  next
    case (3 g h c tile nextTile tile' nextTile' h')
    from 3(1) have o: "owned N g h" "histOK g0 g h" "take N h = h0" "score g = s0 + mergedSum g"
      by (simp_all add: passInv_def)
    have te: "\<not> isEmpty tile" using 3(9) by (simp add: ableToMerge_def isEmpty_def)
    note tc = tileAt_cell[OF 3(6)] tileAt_cell[OF 3(7)]
    have ib: "inBoard g (c + d)" using stepOK_inBoard[OF 3(3)] by simp
    from mergeWith_heap[OF 3(12) te] obtain ti si tl' sl where
      r: "prevIndex nextTile = Some ti" "prevLevel nextTile = Some tl'" and
      h': "h' = push tl' (first (push ti (first h si) h) sl) (push ti (first h si) h)"
      by blast
    from o(1) ib 3(8) tc r have "N \<le> ti" "N \<le> tl'" by (auto simp: owned_def)
    then have "take N h' = take N h" unfolding h' by (simp add: take_push)
    moreover have "score (merged g c (c + d) tile' nextTile') =
        s0 + mergedSum (merged g c (c + d) tile' nextTile')"
      using mergedSum_merged[OF 3(3,4,5,6,7,9,10,12)] o(4) by (simp add: merged_def)
    ultimately show ?case
      using owned_merged[OF o(1) 3(3,4,5,6,7,8) te 3(12)]
        histOK_merged[OF o(2) o(1) 3(3,4,5,6,7,8,9,10,11,12)] o(3)
      by (simp add: passInv_def)
  qed
  then show ?thesis by simp
qed

subsection \<open>The first loop of a pass\<close>

lemma forE_append: "forE (xs @ ys) f s = bindE (forE xs f s) (forE ys f)"
  by (induction xs arbitrary: s) (auto simp: bindE_def split: sum.splits)

text \<open>
  \<open>prepared h h' t t'\<close>: the tile \<open>t'\<close> is \<open>t\<close> after \<open>prepareForMove\<close>, its two arrays
  allocated after the store \<open>h\<close>.
\<close>

definition prepared :: "heap \<Rightarrow> heap \<Rightarrow> Tile \<Rightarrow> Tile \<Rightarrow> bool" where
  "prepared h h' t t' =
     (if isEmpty t then t' = t
      else (\<exists>ri rl. t' = t\<lparr>prevIndex := Some ri, prevLevel := Some rl, status := Still\<rparr> \<and>
              length h \<le> ri \<and> ri < length h' \<and> length h \<le> rl \<and> rl < length h' \<and> ri \<noteq> rl \<and>
              arr h' ri = [Some (index t)] \<and> arr h' rl = [level t]))"

definition apart :: "Tile \<Rightarrow> Tile \<Rightarrow> bool" where
  "apart t u = (prevIndex t \<noteq> prevIndex u \<and> prevIndex t \<noteq> prevLevel u \<and>
                prevLevel t \<noteq> prevIndex u \<and> prevLevel t \<noteq> prevLevel u)"

definition preparedUpTo :: "nat \<Rightarrow> GameState \<Rightarrow> heap \<Rightarrow> GameState \<Rightarrow> heap \<Rightarrow> bool" where
  "preparedUpTo n g h g' h' =
     (sameFrame g g' \<and> score g' = score g \<and> length h \<le> length h' \<and> take (length h) h' = h \<and>
      (\<forall>k. n \<le> k \<and> k < length (tiles g) \<longrightarrow> tiles g' ! k = tiles g ! k) \<and>
      (\<forall>k<n. prepared h h' (tiles g ! k) (tiles g' ! k)) \<and>
      (\<forall>k<n. \<forall>k'<n. k \<noteq> k' \<and> \<not> isEmpty (tiles g ! k) \<and> \<not> isEmpty (tiles g ! k') \<longrightarrow>
         apart (tiles g' ! k) (tiles g' ! k')))"

lemma preparedI:
  assumes "\<not> isEmpty t" "t' = t\<lparr>prevIndex := Some ri, prevLevel := Some rl, status := Still\<rparr>"
    "length h \<le> ri" "ri < length h'" "length h \<le> rl" "rl < length h'" "ri \<noteq> rl"
    "arr h' ri = [Some (index t)]" "arr h' rl = [level t]"
  shows "prepared h h' t t'"
  unfolding prepared_def using assms(1)
  apply simp
  apply (rule exI[of _ ri])
  apply (rule exI[of _ rl])
  using assms(2-) apply simp
  done

lemma prepared_grow:
  assumes "prepared h h1 t t'" "length h1 \<le> length h2" "take (length h1) h2 = h1"
  shows "prepared h h2 t t'"
proof (cases "isEmpty t")
  case True
  with assms(1) show ?thesis by (simp add: prepared_def)
next
  case False
  have A: "arr h2 r = arr h1 r" if "r < length h1" for r
  proof -
    have "h2 ! r = take (length h1) h2 ! r" using that by simp
    then show ?thesis using assms(2,3) that by (simp add: arr_def)
  qed
  from False assms(1) obtain ri rl where
    r: "t' = t\<lparr>prevIndex := Some ri, prevLevel := Some rl, status := Still\<rparr>"
      "length h \<le> ri" "ri < length h1" "length h \<le> rl" "rl < length h1" "ri \<noteq> rl"
      "arr h1 ri = [Some (index t)]" "arr h1 rl = [level t]"
    by (auto simp: prepared_def)
  show ?thesis
    using r A assms(2) by (intro preparedI[OF False r(1)]) simp_all
qed

lemma prepareTile_step:
  assumes "prepareTile n (g1, h1) = Inr (g2, h2)"
  shows "n < length (tiles g1) \<and> length h1 \<le> length h2 \<and> take (length h1) h2 = h1 \<and>
         tiles g2 = (tiles g1)[n := tiles g2 ! n] \<and>
         (isEmpty (tiles g1 ! n) \<longrightarrow> tiles g2 ! n = tiles g1 ! n \<and> h2 = h1) \<and>
         (\<not> isEmpty (tiles g1 ! n) \<longrightarrow>
            tiles g2 ! n = (tiles g1 ! n)\<lparr>prevIndex := Some (length h1),
                              prevLevel := Some (Suc (length h1)), status := Still\<rparr> \<and>
            h2 = h1 @ [[Some (index (tiles g1 ! n))], [level (tiles g1 ! n)]])"
  using assms
  by (auto simp: prepareTile_def bindE_Inr tileAt_Inr prepareForMove_def alloc_def Let_def
      split: if_splits)

lemma prepare_loop:
  assumes "forE [0..<n] prepareTile (g, h) = Inr (g', h')"
  shows "n \<le> length (tiles g) \<and> preparedUpTo n g h g' h'"
  using assms
proof (induction n arbitrary: g' h')
  case 0
  then show ?case by (simp add: preparedUpTo_def)
next
  case (Suc n)
  from Suc.prems obtain g1 h1 where
    a: "forE [0..<n] prepareTile (g, h) = Inr (g1, h1)" and
    b: "prepareTile n (g1, h1) = Inr (g', h')"
    by (auto simp: forE_append bindE_Inr)
  from Suc.IH[OF a] have n: "n \<le> length (tiles g)" and p: "preparedUpTo n g h g1 h1" by simp_all
  note st = prepareTile_step[OF b]
  note fr = prepareTile_frame[OF b]
  from p have p1: "sameFrame g g1" "score g1 = score g" "length h \<le> length h1" "take (length h) h1 = h"
    and same: "\<And>k. n \<le> k \<Longrightarrow> k < length (tiles g) \<Longrightarrow> tiles g1 ! k = tiles g ! k"
    and prep: "\<And>k. k < n \<Longrightarrow> prepared h h1 (tiles g ! k) (tiles g1 ! k)"
    and ap: "\<And>k k'. k < n \<Longrightarrow> k' < n \<Longrightarrow> k \<noteq> k' \<Longrightarrow> \<not> isEmpty (tiles g ! k) \<Longrightarrow>
               \<not> isEmpty (tiles g ! k') \<Longrightarrow> apart (tiles g1 ! k) (tiles g1 ! k')"
    by (simp_all add: preparedUpTo_def)
  have len: "length (tiles g1) = length (tiles g)" using p1(1) by (simp add: sameFrame_def)
  have nl: "n < length (tiles g)" using st len by simp
  have gn: "tiles g1 ! n = tiles g ! n" using same[of n] nl by simp
  have other: "tiles g' ! k = tiles g1 ! k" if "k \<noteq> n" for k
  proof -
    from st have "tiles g' ! k = (tiles g1)[n := tiles g' ! n] ! k" by simp
    with that show ?thesis by simp
  qed
  have tk: "take (length h) h' = h"
  proof -
    have "take (length h) h' = take (length h) (take (length h1) h')"
      using p1(3) by (simp add: min_def)
    with st p1(4) show ?thesis by simp
  qed
  have F: "sameFrame g g'" "score g' = score g" "length h \<le> length h'"
    using fr p1 by (auto intro: sameFrame_trans)
  have S: "tiles g' ! k = tiles g ! k" if "Suc n \<le> k" "k < length (tiles g)" for k
    using other[of k] same[of k] that by simp
  have Pn: "prepared h h' (tiles g ! n) (tiles g' ! n)"
  proof (cases "isEmpty (tiles g ! n)")
    case True
    with st gn show ?thesis by (simp add: prepared_def)
  next
    case False
    with st gn have t: "tiles g' ! n = (tiles g ! n)\<lparr>prevIndex := Some (length h1),
                              prevLevel := Some (Suc (length h1)), status := Still\<rparr>"
      and h': "h' = h1 @ [[Some (index (tiles g ! n))], [level (tiles g ! n)]]" by simp_all
    show ?thesis
      using p1(3) by (intro preparedI[OF False t]) (simp_all add: h' arr_def nth_append)
  qed
  have P: "prepared h h' (tiles g ! k) (tiles g' ! k)" if "k < Suc n" for k
  proof (cases "k = n")
    case True
    with Pn show ?thesis by simp
  next
    case False
    with that have "k < n" by simp
    from prepared_grow[OF prep[OF this]] st other[OF False] show ?thesis by simp
  qed
  have new: "apart (tiles g' ! k) (tiles g' ! n) \<and> apart (tiles g' ! n) (tiles g' ! k)"
    if "k < n" "\<not> isEmpty (tiles g ! k)" "\<not> isEmpty (tiles g ! n)" for k
  proof -
    from prep[OF that(1)] that(2) obtain ri rl where
      "prevIndex (tiles g1 ! k) = Some ri" "prevLevel (tiles g1 ! k) = Some rl"
      "ri < length h1" "rl < length h1"
      by (auto simp: prepared_def)
    moreover from st gn that(3) have "prevIndex (tiles g' ! n) = Some (length h1)"
      "prevLevel (tiles g' ! n) = Some (Suc (length h1))" by simp_all
    moreover from that(1) have "tiles g' ! k = tiles g1 ! k" using other[of k] by simp
    ultimately show ?thesis by (simp add: apart_def)
  qed
  have A: "apart (tiles g' ! k) (tiles g' ! k')"
    if kk: "k < Suc n" "k' < Suc n" "k \<noteq> k'" "\<not> isEmpty (tiles g ! k)" "\<not> isEmpty (tiles g ! k')"
    for k k'
  proof -
    from kk(1,2,3) have "k < n \<and> k' < n \<or> k = n \<and> k' < n \<or> k < n \<and> k' = n"
      by (auto simp: less_Suc_eq)
    then show ?thesis
    proof (elim disjE conjE)
      assume c: "k < n" "k' < n"
      with ap[OF c kk(3,4,5)] other[of k] other[of k'] show ?thesis by simp
    next
      assume "k = n" "k' < n"
      with new[of k'] kk show ?thesis by simp
    next
      assume "k < n" "k' = n"
      with new[of k] kk show ?thesis by simp
    qed
  qed
  from F tk S P A nl show ?case
    unfolding preparedUpTo_def by (simp add: Suc_le_eq)
qed

subsection \<open>A whole pass\<close>

lemma prepared_fields:
  "prepared h h' t t' \<Longrightarrow> index t' = index t \<and> level t' = level t \<and> isEmpty t' = isEmpty t \<and>
     status t' \<noteq> Merged \<and> (isEmpty t \<or> status t' = Still)"
  by (auto simp: prepared_def isEmpty_def split: if_splits)

lemma prepare_pass:
  assumes run: "forE [0..<boardSize g] prepareTile (g, h) = Inr (gp, hp)"
  shows "boardSize g \<le> length (tiles g) \<and> sameFrame g gp \<and> score gp = score g \<and>
         passInv (length h) h (score g) g gp hp \<and>
         (\<forall>k. inBoard g k \<longrightarrow> status (cell gp k) \<noteq> Merged)"
proof -
  from prepare_loop[OF run] have n: "boardSize g \<le> length (tiles g)"
    and p: "preparedUpTo (boardSize g) g h gp hp" by simp_all
  from p have fr: "sameFrame g gp" "score gp = score g" "take (length h) hp = h"
    and prep: "\<And>k. k < boardSize g \<Longrightarrow> prepared h hp (tiles g ! k) (tiles gp ! k)"
    and ap: "\<And>k k'. k < boardSize g \<Longrightarrow> k' < boardSize g \<Longrightarrow> k \<noteq> k' \<Longrightarrow>
               \<not> isEmpty (tiles g ! k) \<Longrightarrow> \<not> isEmpty (tiles g ! k') \<Longrightarrow>
               apart (tiles gp ! k) (tiles gp ! k')"
    by (simp_all add: preparedUpTo_def)
  have bs: "boardSize gp = boardSize g" using sameFrame_dims[OF fr(1)] by simp
  have ib: "inBoard gp k = inBoard g k" for k by (simp add: inBoard_def bs)
  have pc: "prepared h hp (cell g k) (cell gp k)" if "inBoard g k" for k
  proof -
    from that have "nat k < boardSize g" by (auto simp: inBoard_def)
    from prep[OF this] show ?thesis by (simp add: cell_def)
  qed
  have nm: "status (cell gp k) \<noteq> Merged" if "inBoard g k" for k
    using prepared_fields[OF pc[OF that]] by simp
  have ow: "owned (length h) gp hp"
    unfolding owned_def
  proof (intro conjI allI impI)
    fix k assume "inBoard gp k \<and> \<not> isEmpty (cell gp k)"
    then have k: "inBoard g k" "\<not> isEmpty (cell g k)"
      using prepared_fields[OF pc[of k]] by (simp_all add: ib)
    with pc[OF k(1)] show "\<exists>ri rl. prevIndex (cell gp k) = Some ri \<and>
        prevLevel (cell gp k) = Some rl \<and> length h \<le> ri \<and> ri < length hp \<and> length h \<le> rl \<and>
        rl < length hp \<and> ri \<noteq> rl"
      by (auto simp: prepared_def)
  next
    fix k k'
    assume a: "inBoard gp k \<and> inBoard gp k' \<and> k \<noteq> k' \<and>
         \<not> isEmpty (cell gp k) \<and> \<not> isEmpty (cell gp k')"
    then have k: "inBoard g k" "inBoard g k'" by (simp_all add: ib)
    with a prepared_fields[OF pc[of k]] prepared_fields[OF pc[of k']]
    have e: "\<not> isEmpty (cell g k)" "\<not> isEmpty (cell g k')" by simp_all
    from k a have "nat k < boardSize g" "nat k' < boardSize g" "nat k \<noteq> nat k'"
      by (auto simp: inBoard_def)
    from ap[OF this] e have "apart (cell gp k) (cell gp k')" by (simp add: cell_def)
    then show "prevIndex (cell gp k) \<noteq> prevIndex (cell gp k')"
      "prevIndex (cell gp k) \<noteq> prevLevel (cell gp k')"
      "prevLevel (cell gp k) \<noteq> prevLevel (cell gp k')"
      by (simp_all add: apart_def)
  qed
  have ho: "histOK g gp hp"
    unfolding histOK_def
  proof (intro allI impI)
    fix k assume "inBoard gp k \<and> \<not> isEmpty (cell gp k)"
    then have k: "inBoard g k" "\<not> isEmpty (cell g k)"
      using prepared_fields[OF pc[of k]] by (simp_all add: ib)
    from pc[OF k(1)] k(2) obtain ri rl where
      r: "cell gp k = (cell g k)\<lparr>prevIndex := Some ri, prevLevel := Some rl, status := Still\<rparr>"
         "arr hp ri = [Some (index (cell g k))]" "arr hp rl = [level (cell g k)]"
      by (auto simp: prepared_def)
    have "src g (Some (index (cell g k))) (level (cell g k))"
      unfolding src_def using k by blast
    with r show "histAt g hp (cell gp k)"
      by (simp add: histAt_def histI_def histL_def)
  qed
  have "mergedValue (cell gp (int k)) = 0" if "k < boardSize g" for k
    using nm[of "int k"] that by (simp add: inBoard_def mergedValue_def)
  then have "mergedSum gp = 0" by (simp add: mergedSum_sum bs)
  with ow ho fr have "passInv (length h) h (score g) g gp hp"
    by (simp add: passInv_def)
  with n fr nm show ?thesis by blast
qed

lemma gravitate_pass:
  assumes run: "gravitate direction (g, h) = Inr (g', h')"
  shows "boardSize g \<le> length (tiles g) \<and> sameFrame g g' \<and>
         passInv (length h) h (score g) g g' h'"
proof -
  let ?d = "indexChange g direction"
  from run obtain gp hp where
    a: "forE [0..<boardSize g] prepareTile (g, h) = Inr (gp, hp)" and
    b: "forE [0..<boardSize g] (\<lambda>i. gravitateTile (int i) ?d) (gp, hp) = Inr (g', h')"
    by (auto simp: gravitate_def bindE_Inr)
  from prepare_pass[OF a] have n: "boardSize g \<le> length (tiles g)" and fr: "sameFrame g gp"
    and inv: "passInv (length h) h (score g) g gp hp"
    and nm: "\<And>k. inBoard g k \<Longrightarrow> status (cell gp k) \<noteq> Merged"
    by simp_all
  have bs: "boardSize gp = boardSize g" using sameFrame_dims[OF fr] by simp
  have ms: "mergedSettled gp ?d"
    unfolding mergedSettled_def using nm by (auto simp: inBoard_def bs)
  let ?P = "\<lambda>s. sameFrame g (fst s) \<and> mergedSettled (fst s) ?d \<and>
                passInv (length h) h (score g) g (fst s) (snd s)"
  have "?P (g', h')"
  proof (rule forE_invariant[OF b, where P = ?P], goal_cases)
    case 1
    show ?case using fr ms inv by simp
  next
    case (2 i s s')
    obtain g1 h1 g2 h2 where s: "s = (g1, h1)" "s' = (g2, h2)" by (cases s, cases s') auto
    from 2 s have P: "sameFrame g g1" "mergedSettled g1 ?d" "passInv (length h) h (score g) g g1 h1"
      and r: "gravitateTile (int i) ?d (g1, h1) = Inr (g2, h2)" and i: "i < boardSize g"
      by simp_all
    note d = sameFrame_dims[OF P(1)]
    from gravitateTile_passInv[OF r _ _ _ P(2) P(3)] i n d
    have "passInv (length h) h (score g) g g2 h2 \<and> mergedSettled g2 ?d" by simp
    moreover from gravitateTile_frame[OF r] P(1) have "sameFrame g g2"
      by (auto intro: sameFrame_trans)
    ultimately show ?case using s by simp
  qed
  with n show ?thesis by simp
qed

subsection \<open>What \<open>move\<close> reports\<close>

lemma equals_from_True:
  "equals_from ts ts' is = Inr True \<Longrightarrow> i \<in> set is \<Longrightarrow>
     i < length ts \<and> i < length ts' \<and> Tile_equals (ts ! i) (ts' ! i)"
  by (induction "is") (auto simp: bindE_Inr tileAt_Inr split: if_splits)

lemma GameState_equals_True:
  assumes "GameState_equals g c = Inr True" and "i < boardSize g"
  shows "score g = score c \<and> rows g = rows c \<and> columns g = columns c \<and>
         index (tiles g ! i) = index (tiles c ! i) \<and> level (tiles g ! i) = level (tiles c ! i)"
  using assms equals_from_True[of "tiles g" "tiles c" "[0..<boardSize g]" i]
  by (auto simp: GameState_equals_def Tile_equals_def split: if_splits)

lemma GameState_equals_score:
  assumes "GameState_equals g c = Inr True"
  shows "score g = score c"
  using assms by (auto simp: GameState_equals_def split: if_splits)

lemma move_False:
  assumes "move direction g h ds = Inr (False, g', h', ds')"
  shows "\<exists>oldState. GameState_clone g ds = Inr (oldState, ds') \<and>
           gravitate direction (g, h) = Inr (g', h') \<and> GameState_equals g' oldState = Inr True"
  using assms
  by (auto simp: move.simps bindE_Inr split: if_splits)

lemma move_False_keeps:
  assumes "move direction g h ds = Inr (False, g', h', ds')"
  shows "rows g' = rows g \<and> columns g' = columns g \<and>
         targetTileLevel g' = targetTileLevel g \<and> score g' = score g \<and>
         gameStatus g' = gameStatus g \<and> length (tiles g') = length (tiles g) \<and>
         (\<forall>i < boardSize g.
            index (tiles g' ! i) = index (tiles g ! i) \<and> level (tiles g' ! i) = level (tiles g ! i))"
proof -
  from move_False[OF assms] obtain oldState where
    a: "GameState_clone g ds = Inr (oldState, ds')" and
    b: "gravitate direction (g, h) = Inr (g', h')" and
    c: "GameState_equals g' oldState = Inr True" by blast
  note cf = GameState_clone_frame[OF a]
  note gf = gravitate_frame[OF b]
  have bs: "boardSize g' = boardSize g" using gf by (simp add: sameFrame_def boardSize_def)
  have "index (tiles g' ! i) = index (tiles g ! i) \<and> level (tiles g' ! i) = level (tiles g ! i)"
    if "i < boardSize g" for i
    using GameState_equals_True[OF c, of i] that bs cf by (simp add: Tile_clone_def Tile_new_def)
  moreover have "score g' = score g" using GameState_equals_score[OF c] cf by simp
  ultimately show ?thesis using gf by (simp add: sameFrame_def)
qed


lemma hasAchievedGoal_from_Inr:
  "hasAchievedGoal_from t ts is = Inr won \<Longrightarrow>
     won = (\<exists>i \<in> set is. i < length ts \<and> t \<le> int (levelNum (ts ! i)))"
  by (induction "is") (auto simp: bindE_Inr tileAt_Inr split: if_splits)

lemma hasAchievedGoal_Inr:
  "hasAchievedGoal g = Inr won \<Longrightarrow>
     won = (\<exists>i < boardSize g. i < length (tiles g) \<and> targetTileLevel g \<le> int (levelNum (tiles g ! i)))"
  by (auto simp: hasAchievedGoal_def dest!: hasAchievedGoal_from_Inr)

text \<open>"Some tile's level is at least targetTileLevel" (a \<open>null\<close> level compares as 0).\<close>

definition someTileReachedTarget :: "GameState \<Rightarrow> bool" where
  "someTileReachedTarget g =
     (\<exists>i < boardSize g. i < length (tiles g) \<and> targetTileLevel g \<le> int (levelNum (tiles g ! i)))"

lemma updateStatus_Inr:
  assumes "updateStatus g h ds = Inr (g', h', ds')"
  shows "\<exists>dead. isGameOver g h ds = Inr (dead, h', ds') \<and>
     g' = g\<lparr>gameStatus := gameStatus g'\<rparr> \<and>
     gameStatus g' =
       (if dead then Lost
        else if gameStatus g = InProgress \<and> someTileReachedTarget g then Won
        else if gameStatus g = Won then Continued
        else gameStatus g)"
proof -
  from assms obtain dead won where
    a: "isGameOver g h ds = Inr (dead, h', ds')" and
    b: "dead \<or> (if gameStatus g = InProgress then hasAchievedGoal g else Inr False) = Inr won" and
    c: "g' = (if dead then g\<lparr>gameStatus := Lost\<rparr>
              else if won then g\<lparr>gameStatus := Won\<rparr>
              else if gameStatus g = Won then g\<lparr>gameStatus := Continued\<rparr>
              else g)"
    by (auto simp: updateStatus.simps bindE_Inr split: if_splits)
  have w: "\<not> dead \<Longrightarrow> won = (gameStatus g = InProgress \<and> someTileReachedTarget g)"
    using b hasAchievedGoal_Inr[of g won] by (auto simp: someTileReachedTarget_def split: if_splits)
  show ?thesis
    apply (rule exI[of _ dead])
    using a c w by (cases "gameStatus g") auto
qed

lemma move_True:
  assumes "move direction g h ds = Inr (True, g', h', ds')"
  shows "\<exists>oldState ds1 g1 h1 g2 ds2. GameState_clone g ds = Inr (oldState, ds1) \<and>
           gravitate direction (g, h) = Inr (g1, h1) \<and> GameState_equals g1 oldState = Inr False \<and>
           spawnTile g1 ds1 = Inr (g2, ds2) \<and> updateStatus g2 h1 ds2 = Inr (g', h', ds')"
  using assms
  by (auto simp: move.simps bindE_Inr split: if_splits)

subsection \<open>Fullness and spawning\<close>

lemma isFull_from_Inr:
  "isFull_from ts is = Inr full \<Longrightarrow>
     full = (\<forall>i \<in> set is. \<not> isEmpty (ts ! i))"
  by (induction "is") (auto simp: bindE_Inr tileAt_Inr split: if_splits)

lemma isFull_Inr:
  "isFull g = Inr full \<Longrightarrow> full = (\<forall>i < boardSize g. \<not> isEmpty (tiles g ! i))"
  by (auto simp: isFull_def dest!: isFull_from_Inr)

lemma isFull_from_total:
  "\<forall>i \<in> set is. i < length ts \<Longrightarrow> \<exists>full. isFull_from ts is = Inr full"
  by (induction "is") (auto simp: bindE_def tileAt_def)

lemma isFull_total:
  "boardSize g \<le> length (tiles g) \<Longrightarrow> \<exists>full. isFull g = Inr full"
  unfolding isFull_def by (rule isFull_from_total) auto

lemma spawnIndex_Inr:
  "spawnIndex ts n ds = Inr (i, ds') \<Longrightarrow>
     0 \<le> i \<and> i < int n \<and> nat i < length ts \<and> isEmpty (ts ! nat i) \<and> (\<exists>used. ds = used @ ds' \<and> used \<noteq> [])"
proof (induction ds arbitrary: i ds')
  case Nil
  then show ?case by simp
next
  case (Cons r rs)
  show ?case
  proof (cases "isEmpty (ts ! nat (min (int n - 1) (int r)))")
    case True
    with Cons.prems show ?thesis
      by (auto simp: Let_def bindE_Inr tileAt_Inr split: if_splits)
  next
    case False
    with Cons.prems have "spawnIndex ts n rs = Inr (i, ds')"
      by (auto simp: Let_def bindE_Inr tileAt_Inr split: if_splits)
    from Cons.IH[OF this] show ?thesis by (metis append_Cons list.distinct(1))
  qed
qed

lemma spawn_Inr:
  "spawn t ds = Inr (t', ds') \<Longrightarrow>
     \<exists>r. ds = r # ds' \<and> t' = t\<lparr>level := Some (if 9 \<le> r then 2 else 1), status := Spawned\<rparr>"
  by (cases ds) (auto simp: spawn_def bindE_Inr min_def)

lemma spawnTile_Inr:
  assumes "spawnTile g ds = Inr (g', ds')"
  shows "(isFull g = Inr True \<and> g' = g \<and> ds' = ds) \<or>
         (isFull g = Inr False \<and>
          (\<exists>k l used. k < boardSize g \<and> k < length (tiles g) \<and> isEmpty (tiles g ! k) \<and>
             (l = 1 \<or> l = 2) \<and> ds = used @ ds' \<and> 2 \<le> length used \<and>
             g' = g\<lparr>tiles := (tiles g)[k := (tiles g ! k)\<lparr>level := Some l, status := Spawned\<rparr>]\<rparr>))"
proof -
  from assms obtain full where f: "isFull g = Inr full"
    by (auto simp: spawnTile_def bindE_Inr)
  show ?thesis
  proof (cases full)
    case True
    with assms f show ?thesis by (simp add: spawnTile_def bindE_def)
  next
    case False
    with assms f obtain idx ds1 t t' where
      a: "spawnIndex (tiles g) (boardSize g) ds = Inr (idx, ds1)" and
      b: "tileAt (tiles g) idx = Inr t" and
      c: "spawn t ds1 = Inr (t', ds')" and
      d: "g' = g\<lparr>tiles := (tiles g)[nat idx := t']\<rparr>"
      by (auto simp: spawnTile_def bindE_Inr)
    from spawnIndex_Inr[OF a] obtain used where
      i: "0 \<le> idx" "idx < int (boardSize g)" "nat idx < length (tiles g)" "isEmpty (tiles g ! nat idx)"
      and u: "ds = used @ ds1" "used \<noteq> []" by blast
    from spawn_Inr[OF c] obtain r where
      s0: "ds1 = r # ds'" "t' = t\<lparr>level := Some (if 9 \<le> r then 2 else 1), status := Spawned\<rparr>" by blast
    define l :: nat where "l = (if 9 \<le> r then 2 else 1)"
    with s0 have s: "ds1 = r # ds'" "l = 1 \<or> l = 2" "t' = t\<lparr>level := Some l, status := Spawned\<rparr>"
      by auto
    have t: "t = tiles g ! nat idx" using b by (simp add: tileAt_Inr)
    have "ds = (used @ [r]) @ ds'" "2 \<le> length (used @ [r])"
      using u s by (cases used; simp)+
    have "nat idx < boardSize g" using i by simp
    moreover have "g' = g\<lparr>tiles := (tiles g)[nat idx := (tiles g ! nat idx)\<lparr>level := Some l, status := Spawned\<rparr>]\<rparr>"
      using d s t by simp
    moreover have "isFull g = Inr False" using f False by simp
    ultimately have "isFull g = Inr False \<and>
          (\<exists>k l used. k < boardSize g \<and> k < length (tiles g) \<and> isEmpty (tiles g ! k) \<and>
             (l = 1 \<or> l = 2) \<and> ds = used @ ds' \<and> 2 \<le> length used \<and>
             g' = g\<lparr>tiles := (tiles g)[k := (tiles g ! k)\<lparr>level := Some l, status := Spawned\<rparr>]\<rparr>)"
      using i s(2) \<open>ds = (used @ [r]) @ ds'\<close> \<open>2 \<le> length (used @ [r])\<close>
      by (intro conjI exI[of _ "nat idx"] exI[of _ l] exI[of _ "used @ [r]"]) simp_all
    then show ?thesis by simp
  qed
qed


subsection \<open>The store across a move\<close>

text \<open>\<open>heapExt h h'\<close>: the store \<open>h'\<close> is \<open>h\<close> with new arrays after it; no array of \<open>h\<close>
  was written.\<close>

definition heapExt :: "heap \<Rightarrow> heap \<Rightarrow> bool" where
  "heapExt h h' = (length h \<le> length h' \<and> take (length h) h' = h)"

lemma heapExt_refl [simp]: "heapExt h h"
  by (simp add: heapExt_def)

lemma heapExt_trans: "heapExt h h1 \<Longrightarrow> heapExt h1 h2 \<Longrightarrow> heapExt h h2"
proof -
  assume a: "heapExt h h1" "heapExt h1 h2"
  then have l: "length h \<le> length h1" "length h1 \<le> length h2"
    and t: "take (length h) h1 = h" "take (length h1) h2 = h1"
    by (simp_all add: heapExt_def)
  have "take (length h) (take (length h1) h2) = take (length h) h2"
    using l by (simp add: min_def)
  then have "take (length h) h2 = h" by (simp only: t)
  with l show ?thesis by (simp add: heapExt_def)
qed

lemma heapExt_arr: "heapExt h h' \<Longrightarrow> r < length h \<Longrightarrow> arr h' r = arr h r"
proof -
  assume a: "heapExt h h'" "r < length h"
  then have "h' ! r = take (length h) h' ! r" by simp
  with a show ?thesis by (simp add: heapExt_def arr_def)
qed

lemma gravitate_heapExt:
  assumes "gravitate direction (g, h) = Inr (g', h')"
  shows "heapExt h h'"
  using gravitate_pass[OF assms] gravitate_frame[OF assms]
  by (simp add: heapExt_def passInv_def)

lemma move_heapExt:
  "\<forall>r. move d g h ds = Inr r \<longrightarrow> heapExt h (fst (snd (snd r)))"
  "\<forall>r. updateStatus g1 h1 ds1 = Inr r \<longrightarrow> heapExt h1 (fst (snd r))"
  "\<forall>r. isGameOver g2 h2 ds2 = Inr r \<longrightarrow> heapExt h2 (fst (snd r))"
  "\<forall>r. isGameOver_loop dirs g3 h3 ds3 = Inr r \<longrightarrow> heapExt h3 (fst (snd r))"
proof (induct d g h ds and g1 h1 ds1 and g2 h2 ds2 and dirs g3 h3 ds3
       rule: move_updateStatus_isGameOver_isGameOver_loop.induct)
  case (1 direction g h ds)
  show ?case
  proof (intro allI impI)
    fix r assume r: "move direction g h ds = Inr r"
    from r obtain oldState ds1 g1 h1 same where
      a: "GameState_clone g ds = Inr (oldState, ds1)" and
      b: "gravitate direction (g, h) = Inr (g1, h1)" and
      c: "GameState_equals g1 oldState = Inr same" and
      d: "(if \<not> same then
         bindE (spawnTile g1 ds1) (\<lambda>(g2, ds2).
         bindE (updateStatus g2 h1 ds2) (\<lambda>(g3, h3, ds3).
           Inr (True, g3, h3, ds3)))
       else Inr (False, g1, h1, ds1)) = Inr r"
      by (simp add: move.simps bindE_Inr split: prod.splits) blast
    note e1 = gravitate_heapExt[OF b]
    show "heapExt h (fst (snd (snd r)))"
    proof (cases same)
      case True
      with d e1 show ?thesis by auto
    next
      case False
      with d obtain g2 ds2 g3 h3 ds3 where
        e: "spawnTile g1 ds1 = Inr (g2, ds2)" and
        f: "updateStatus g2 h1 ds2 = Inr (g3, h3, ds3)" and
        g: "r = (True, g3, h3, ds3)"
        by (auto simp: bindE_Inr)
      from "1.hyps"[OF a refl b refl c False e refl] f
      have "heapExt h1 h3" by auto
      with e1 g show ?thesis by (auto intro: heapExt_trans)
    qed
  qed
next
  case (2 g h ds)
  then show ?case
    by (auto simp: updateStatus.simps bindE_Inr split: if_splits)
next
  case (3 g h ds)
  show ?case
  proof (intro allI impI)
    fix r assume r: "isGameOver g h ds = Inr r"
    then obtain dead where a: "isFull g = Inr dead" and
      b: "(if dead then isGameOver_loop [Right, Up, Left, Down] g h ds
           else Inr (False, h, ds)) = Inr r"
      by (auto simp: isGameOver.simps bindE_Inr simp del: isGameOver_loop.simps)
    show "heapExt h (fst (snd r))"
    proof (cases dead)
      case True
      with b "3.hyps"[OF a True] show ?thesis by simp
    next
      case False
      with b show ?thesis by auto
    qed
  qed
next
  case (4 g h ds)
  then show ?case by simp
next
  case (5 dir dirs g h ds)
  show ?case
  proof (intro allI impI)
    fix r assume r: "isGameOver_loop (dir # dirs) g h ds = Inr r"
    from r obtain c ds1 changed c' h1 ds2 where
      a: "GameState_clone g ds = Inr (c, ds1)" and
      b: "move dir c h ds1 = Inr (changed, c', h1, ds2)" and
      d: "(if changed then Inr (False, h1, ds2)
       else isGameOver_loop dirs g h1 ds2) = Inr r"
      by (simp add: bindE_Inr split: prod.splits) blast
    from "5.hyps"(1)[OF a refl] b have m: "heapExt h h1" by auto
    show "heapExt h (fst (snd r))"
    proof (cases changed)
      case True
      with d m show ?thesis by auto
    next
      case False
      with d have "isGameOver_loop dirs g h1 ds2 = Inr r" by simp
      with "5.hyps"(2)[OF a refl b refl refl refl False]
      have "heapExt h1 (fst (snd r))" by auto
      with m show ?thesis by (auto intro: heapExt_trans)
    qed
  qed
qed

lemma mergedSum_cong:
  assumes "boardSize g' = boardSize g"
    "\<And>k. k < boardSize g \<Longrightarrow> mergedValue (cell g' (int k)) = mergedValue (cell g (int k))"
  shows "mergedSum g' = mergedSum g"
  using assms by (simp add: mergedSum_sum)

lemma move_score:
  assumes "move direction g h ds = Inr (changed, g', h', ds')"
  shows "score g' = score g + mergedSum g'"
proof (cases changed)
  case False
  with assms move_False[of direction g h ds g' h' ds'] gravitate_pass[of direction g h g' h']
  show ?thesis by (auto simp: passInv_def)
next
  case True
  with assms have "move direction g h ds = Inr (True, g', h', ds')" by simp
  from move_True[OF this] obtain oldState ds1 g1 h1 g2 ds2 where
    a: "gravitate direction (g, h) = Inr (g1, h1)" and
    b: "spawnTile g1 ds1 = Inr (g2, ds2)" and
    c: "updateStatus g2 h1 ds2 = Inr (g', h', ds')"
    by blast
  from gravitate_pass[OF a] have s1: "score g1 = score g + mergedSum g1"
    by (simp add: passInv_def)
  from updateStatus_Inr[OF c] have g': "g' = g2\<lparr>gameStatus := gameStatus g'\<rparr>" by blast
  have "mergedSum g' = mergedSum g2"
    by (subst g', rule mergedSum_cong) (simp_all add: boardSize_def cell_def)
  moreover have "score g' = score g2" by (subst g') simp
  moreover from spawnTile_Inr[OF b] have "g2 = g1 \<or>
      (\<exists>k l. k < boardSize g1 \<and> k < length (tiles g1) \<and> isEmpty (tiles g1 ! k) \<and>
         g2 = g1\<lparr>tiles := (tiles g1)[k := (tiles g1 ! k)\<lparr>level := Some l, status := Spawned\<rparr>]\<rparr>)"
    by auto
  then have "mergedSum g2 = mergedSum g1 \<and> score g2 = score g1"
  proof (elim disjE conjE exE)
    assume "g2 = g1"
    then show ?thesis by simp
  next
    fix k l
    assume k: "k < boardSize g1" "k < length (tiles g1)" "isEmpty (tiles g1 ! k)"
      and g2: "g2 = g1\<lparr>tiles := (tiles g1)[k := (tiles g1 ! k)\<lparr>level := Some l, status := Spawned\<rparr>]\<rparr>"
    have "mergedSum g2 = mergedSum g1"
    proof (rule mergedSum_cong)
      show "boardSize g2 = boardSize g1" by (simp add: g2 boardSize_def)
    next
      fix j assume "j < boardSize g1"
      show "mergedValue (cell g2 (int j)) = mergedValue (cell g1 (int j))"
        using k by (cases "j = k") (simp_all add: g2 cell_def mergedValue_def isEmpty_def)
    qed
    then show ?thesis by (simp add: g2)
  qed
  ultimately show ?thesis using s1 by simp
qed

lemma mergedSum_nonneg: "0 \<le> mergedSum g"
  by (simp add: mergedSum_sum mergedValue_def sum_nonneg)

subsection \<open>The animation player\<close>

lemma animationStep_nonneg: "prevTime a \<le> time \<Longrightarrow> 0 \<le> animationStep a time"
  by (simp add: animationStep_def)

lemma animationStep_tl [simp]:
  "prevTime (a\<lparr>animationProgress := p, stateHistory := hs\<rparr>) = prevTime a"
  by simp

lemma advance_progress:
  "animationProgress (advance a time now) =
     (if length (stateHistory a) \<noteq> 1 \<or> animationProgress a \<noteq> 1 then
        (if animationProgress a = 1
         then min 1 (animationStep (a\<lparr>animationProgress := 0, stateHistory := tl (stateHistory a)\<rparr>) time)
         else min 1 (animationProgress a + animationStep a time))
      else animationProgress a)"
  by (auto simp: advance_def Let_def)

lemma advance_range:
  assumes "0 \<le> animationProgress a" "animationProgress a \<le> 1" "prevTime a \<le> time"
  shows "0 \<le> animationProgress (advance a time now) \<and> animationProgress (advance a time now) \<le> 1"
  using assms animationStep_nonneg[of a time]
    animationStep_nonneg[of "a\<lparr>animationProgress := 0, stateHistory := tl (stateHistory a)\<rparr>" time]
  by (auto simp: advance_progress)

lemma advance_prevTime [simp]: "prevTime (advance a time now) = now"
  by (simp add: advance_def Let_def)

lemma advance_history:
  "stateHistory (advance a time now) =
     (if animationProgress a = 1 \<and> length (stateHistory a) \<noteq> 1 then tl (stateHistory a) else stateHistory a)"
  by (auto simp: advance_def Let_def)

lemma advance_nonempty:
  "stateHistory a \<noteq> [] \<Longrightarrow> stateHistory (advance a time now) \<noteq> []"
  by (cases "stateHistory a"; cases "tl (stateHistory a)") (auto simp: advance_history)

lemma advance_drop:
  assumes "animationProgress (advance a time now) < animationProgress a"
    "animationProgress a \<le> 1" "prevTime a \<le> time"
  shows "animationProgress a = 1 \<and> length (stateHistory a) \<noteq> 1"
  using assms animationStep_nonneg[of a time]
  by (auto simp: advance_progress split: if_splits)

lemma addState_Inr:
  "addState a g ds = Inr (a', ds') \<Longrightarrow>
     \<exists>c. GameState_clone g ds = Inr (c, ds') \<and> a' = a\<lparr>stateHistory := stateHistory a @ [c]\<rparr>"
  by (auto simp: addState_def bindE_Inr)

lemma play_range:
  "play es (a, ds) = Inr (a', ds') \<Longrightarrow> elapsedOK (prevTime a) es \<Longrightarrow>
   0 \<le> animationProgress a \<Longrightarrow> animationProgress a \<le> 1 \<Longrightarrow>
   0 \<le> animationProgress a' \<and> animationProgress a' \<le> 1"
proof (induction es arbitrary: a ds)
  case Nil
  then show ?case by simp
next
  case (Cons e es)
  show ?case
  proof (cases e)
    case (AddState g)
    with Cons.prems(1) obtain a1 ds1 where
      a: "addState a g ds = Inr (a1, ds1)" and b: "play es (a1, ds1) = Inr (a', ds')"
      by (auto simp: bindE_Inr)
    from addState_Inr[OF a] have "prevTime a1 = prevTime a" "animationProgress a1 = animationProgress a"
      by auto
    with Cons.IH[OF b] Cons.prems AddState show ?thesis by simp
  next
    case (Advance time now)
    with advance_range[of a time now] Cons.prems Cons.IH[of "advance a time now" ds]
    show ?thesis by simp
  qed
qed

lemma play_nonempty:
  "play es (a, ds) = Inr (a', ds') \<Longrightarrow> stateHistory a \<noteq> [] \<or> (\<exists>g. AddState g \<in> set es) \<Longrightarrow>
     stateHistory a' \<noteq> []"
proof (induction es arbitrary: a ds)
  case Nil
  then show ?case by simp
next
  case (Cons e es)
  show ?case
  proof (cases e)
    case (AddState g)
    with Cons.prems(1) obtain a1 ds1 where
      a: "addState a g ds = Inr (a1, ds1)" and b: "play es (a1, ds1) = Inr (a', ds')"
      by (auto simp: bindE_Inr)
    from addState_Inr[OF a] have "stateHistory a1 \<noteq> []" by auto
    with Cons.IH[OF b] show ?thesis by simp
  next
    case (Advance time now)
    with advance_nonempty[of a time now] Cons.prems Cons.IH[of "advance a time now" ds]
    show ?thesis by auto
  qed
qed

lemma retire_within:
  "1 < length (stateHistory a) \<Longrightarrow> 0 \<le> animationProgress a \<Longrightarrow> animationProgress a \<le> 1 \<Longrightarrow>
   (1 - animationProgress a) * 100 \<le> real n \<Longrightarrow> elapsedPositive (prevTime a) ts \<Longrightarrow> n < length ts \<Longrightarrow>
   \<exists>k \<le> n. animationProgress (advances (take k ts) a) = 1 \<and>
            stateHistory (advances (take k ts) a) = stateHistory a \<and>
            stateHistory (advances (take (Suc k) ts) a) = tl (stateHistory a)"
proof (induction n arbitrary: a ts)
  case 0
  then have p: "animationProgress a = 1" by simp
  from 0 obtain time now ts' where ts: "ts = (time, now) # ts'" by (cases ts) auto
  from p 0 ts show ?case by (simp add: advance_history)
next
  case (Suc n)
  from Suc.prems obtain time now ts' where ts: "ts = (time, now) # ts'" by (cases ts) auto
  show ?case
  proof (cases "animationProgress a = 1")
    case True
    with Suc.prems ts have "animationProgress (advances (take 0 ts) a) = 1 \<and>
            stateHistory (advances (take 0 ts) a) = stateHistory a \<and>
            stateHistory (advances (take (Suc 0) ts) a) = tl (stateHistory a)"
      by (simp add: advance_history)
    then show ?thesis by blast
  next
    case False
    let ?a1 = "advance a time now"
    have el: "prevTime a < time" using Suc.prems ts by simp
    have h1: "stateHistory ?a1 = stateHistory a" using False by (simp add: advance_history)
    have "1 \<le> real_of_int (time - prevTime a)" using el by simp
    moreover have "2 \<le> real (length (stateHistory a))" using Suc.prems(1) by simp
    ultimately have "2 * 1 \<le> real (length (stateHistory a)) * real_of_int (time - prevTime a)"
      by (intro mult_mono) auto
    then have st: "1 / 100 \<le> animationStep a time"
      by (simp add: animationStep_def)
    have p1: "animationProgress ?a1 = min 1 (animationProgress a + animationStep a time)"
      using False by (simp add: advance_progress)
    have r: "0 \<le> animationProgress ?a1 \<and> animationProgress ?a1 \<le> 1"
      using advance_range[of a time now] Suc.prems el by simp
    have m: "(1 - animationProgress ?a1) * 100 \<le> real n"
      using p1 st Suc.prems(4) by (auto simp: min_def)
    from Suc.IH[of ?a1 ts'] h1 r m Suc.prems ts
    obtain k where k: "k \<le> n" "animationProgress (advances (take k ts') ?a1) = 1"
      "stateHistory (advances (take k ts') ?a1) = stateHistory a"
      "stateHistory (advances (take (Suc k) ts') ?a1) = tl (stateHistory a)"
      by auto
    then have "Suc k \<le> Suc n \<and> animationProgress (advances (take (Suc k) ts) a) = 1 \<and>
            stateHistory (advances (take (Suc k) ts) a) = stateHistory a \<and>
            stateHistory (advances (take (Suc (Suc k)) ts) a) = tl (stateHistory a)"
      using ts by simp
    then show ?thesis by blast
  qed
qed

subsection \<open>Example boards\<close>

text \<open>A board of one cell holding a freshly spawned tile of level 1.\<close>

definition oneCellBoard :: GameState where
  "oneCellBoard =
     \<lparr>rows = 1, columns = 1, targetTileLevel = 11,
      tiles = [\<lparr>index = 0, level = Some 1, prevIndex = None, prevLevel = None, status = Spawned\<rparr>],
      score = 0, gameStatus = InProgress\<rparr>"

text \<open>The same board after \<open>prepareForMove\<close> with an empty store.\<close>

definition oneCellBoard_prepared :: GameState where
  "oneCellBoard_prepared =
     \<lparr>rows = 1, columns = 1, targetTileLevel = 11,
      tiles = [\<lparr>index = 0, level = Some 1, prevIndex = Some 0, prevLevel = Some 1, status = Still\<rparr>],
      score = 0, gameStatus = InProgress\<rparr>"

text \<open>A board of two cells whose first tile has just reached level 11.\<close>

definition wonBoard :: GameState where
  "wonBoard =
     \<lparr>rows = 1, columns = 2, targetTileLevel = 11,
      tiles = [\<lparr>index = 0, level = Some 11, prevIndex = Some 0, prevLevel = Some 1, status = Merged\<rparr>,
               Tile_new 1],
      score = 2048, gameStatus = InProgress\<rparr>"

text \<open>A won board of three cells with one tile on the right, before and after \<open>move(Left)\<close>.\<close>

definition threeCellBoard :: GameState where
  "threeCellBoard =
     \<lparr>rows = 1, columns = 3, targetTileLevel = 11,
      tiles = [Tile_new 0, Tile_new 1,
               \<lparr>index = 2, level = Some 1, prevIndex = None, prevLevel = None, status = Spawned\<rparr>],
      score = 0, gameStatus = Won\<rparr>"

definition threeCellBoard_moved :: GameState where
  "threeCellBoard_moved =
     \<lparr>rows = 1, columns = 3, targetTileLevel = 11,
      tiles = [\<lparr>index = 0, level = Some 1, prevIndex = Some 0, prevLevel = Some 1, status = Moved\<rparr>,
               \<lparr>index = 1, level = Some 1, prevIndex = None, prevLevel = None, status = Spawned\<rparr>,
               Tile_new 2],
      score = 0, gameStatus = Continued\<rparr>"

text \<open>A player with two queued snapshots, the first almost played.\<close>

definition twoSnapshots :: GameAnimationController where
  "twoSnapshots =
     \<lparr>animationProgress = 99 / 100, stateHistory = [oneCellBoard, oneCellBoard_prepared],
      prevTime = 0\<rparr>"

text \<open>
  A board of 4 x 4 cells, target level 11, with a tile of level 1 at index 0 and one at
  index 1 (of any non-empty status and history) and fresh empty tiles elsewhere; and
  the same board after the slide to the left, given the size of the store before.
\<close>

definition twoTiles :: "TileStatus \<Rightarrow> ref option \<Rightarrow> ref option \<Rightarrow> TileStatus \<Rightarrow> ref option \<Rightarrow> ref option \<Rightarrow> int \<Rightarrow> GameState" where
  "twoTiles st0 p0 q0 st1 p1 q1 s =
     \<lparr>rows = 4, columns = 4, targetTileLevel = 11,
      tiles = \<lparr>index = 0, level = Some 1, prevIndex = p0, prevLevel = q0, status = st0\<rparr> #
              \<lparr>index = 1, level = Some 1, prevIndex = p1, prevLevel = q1, status = st1\<rparr> #
              map Tile_new [2..<16],
      score = s, gameStatus = InProgress\<rparr>"

definition twoTiles_merged :: "nat \<Rightarrow> int \<Rightarrow> GameState" where
  "twoTiles_merged n s =
     \<lparr>rows = 4, columns = 4, targetTileLevel = 11,
      tiles = \<lparr>index = 0, level = Some 2, prevIndex = Some n, prevLevel = Some (n + 1), status = Merged\<rparr> #
              map Tile_new [1..<16],
      score = s + 4, gameStatus = InProgress\<rparr>"

text \<open>The same board after the slide and the spawn of a tile of level \<open>l\<close> at cell \<open>k\<close>.\<close>

definition twoTiles_spawned :: "nat \<Rightarrow> int \<Rightarrow> nat \<Rightarrow> nat \<Rightarrow> GameState" where
  "twoTiles_spawned n s k l =
     (twoTiles_merged n s)\<lparr>tiles := (tiles (twoTiles_merged n s))
        [k := (Tile_new k)\<lparr>level := Some l, status := Spawned\<rparr>]\<rparr>"

subsection \<open>The two-tile scenario\<close>

lemma upt16: "[0..<16] = [0,1,2,3,4,5,6,7,8,9,10,11,12,13,14,15]"
  by (simp add: upt_rec)

lemma gravitate_twoTiles:
  assumes "st0 \<noteq> Empty" "st1 \<noteq> Empty"
  shows "gravitate Left (twoTiles st0 p0 q0 st1 p1 q1 s, h) =
     Inr (twoTiles_merged (length h) s, h @ [[Some 0, Some 1], [Some 1, Some 1], [Some 1], [Some 1]])"
  using assms
  by (simp add: gravitate_def twoTiles_def twoTiles_merged_def boardSize_def upt16 bindE_def
      prepareTile_def tileAt_def prepareForMove_def alloc_def isEmpty_def Tile_new_def
      indexChange_def gravitateTile.simps isInsideBoard_def areNeighboring_def jsRem_def Let_def
      moveTo_def mergeWith_def ableToMerge_def reset_def push_def first_def arr_def levelNum_def
      scoreValue_def nth_append list_update_append upt_rec)

lemma Tile_clone_id [simp]: "Tile_clone t = t"
  by (simp add: Tile_clone_def Tile_new_def)

lemma GameState_equals_score_diff:
  "score g \<noteq> score c \<Longrightarrow> GameState_equals g c = Inr False"
  by (simp add: GameState_equals_def)

lemma hasAchievedGoal_total:
  "boardSize g \<le> length (tiles g) \<Longrightarrow> \<exists>won. hasAchievedGoal g = Inr won"
proof -
  have "\<forall>i \<in> set is. i < length ts \<Longrightarrow> \<exists>won. hasAchievedGoal_from t ts is = Inr won" for t ts "is"
    by (induction "is") (auto simp: bindE_def tileAt_def)
  then show ?thesis if "boardSize g \<le> length (tiles g)"
    unfolding hasAchievedGoal_def using that by (metis atLeastLessThan_iff less_le_trans set_upt)
qed

lemma twoTiles_merged_fields:
  "length (tiles (twoTiles_merged n s)) = 16" "rows (twoTiles_merged n s) = 4"
  "columns (twoTiles_merged n s) = 4" "gameStatus (twoTiles_merged n s) = InProgress"
  "targetTileLevel (twoTiles_merged n s) = 11" "boardSize (twoTiles_merged n s) = 16"
  "score (twoTiles_merged n s) = s + 4"
  by (simp_all add: twoTiles_merged_def boardSize_def del: upt_Suc)

lemma twoTiles_merged_nth:
  "1 \<le> k \<Longrightarrow> k < 16 \<Longrightarrow> tiles (twoTiles_merged n s) ! k = Tile_new k"
  by (simp add: twoTiles_merged_def nth_Cons' del: upt_Suc)

lemma twoTiles_merged_empty:
  "k < 16 \<Longrightarrow> isEmpty (tiles (twoTiles_merged n s) ! k) \<longleftrightarrow> 1 \<le> k"
  by (cases k) (simp_all add: twoTiles_merged_def isEmpty_def Tile_new_def del: upt_Suc)

lemma twoTiles_merged_not_full: "isFull (twoTiles_merged n s) = Inr False"
proof -
  from isFull_total[of "twoTiles_merged n s"] obtain full where
    f: "isFull (twoTiles_merged n s) = Inr full" by (auto simp: twoTiles_merged_fields)
  from isFull_Inr[OF f] twoTiles_merged_empty[of 1 n s] have "\<not> full"
    by (auto simp: twoTiles_merged_fields)
  with f show ?thesis by simp
qed

lemma twoTiles_spawned_updateStatus:
  assumes "1 \<le> k" "k < 16" "l = 1 \<or> l = 2"
  shows "updateStatus (twoTiles_spawned n s k l) h ds = Inr (twoTiles_spawned n s k l, h, ds)"
proof -
  let ?g2 = "twoTiles_spawned n s k l"
  let ?b1 = "twoTiles_merged n s"
  have len: "length (tiles ?g2) = 16" "boardSize ?g2 = 16" "gameStatus ?g2 = InProgress"
    "targetTileLevel ?g2 = 11"
    by (simp_all add: twoTiles_spawned_def twoTiles_merged_fields boardSize_def)
  define e :: nat where "e = (if k = 1 then 2 else 1)"
  have e: "e \<noteq> k" "1 \<le> e" "e < 16"
    by (simp_all add: e_def)
  have ge: "tiles ?g2 ! e = Tile_new e"
    using e by (simp add: twoTiles_spawned_def twoTiles_merged_nth)
  have notfull: "isFull ?g2 = Inr False"
  proof -
    from isFull_total[of ?g2] len obtain full where f: "isFull ?g2 = Inr full" by auto
    from isFull_Inr[OF f] len e ge have "\<not> full"
      by (auto simp: isEmpty_def Tile_new_def)
    with f show ?thesis by simp
  qed
  have lv: "levelNum (tiles ?g2 ! i) \<le> 2" if "i < 16" for i
  proof (cases "i = k")
    case True
    with assms show ?thesis
      by (auto simp: twoTiles_spawned_def twoTiles_merged_fields levelNum_def)
  next
    case False
    then have t: "tiles ?g2 ! i = tiles ?b1 ! i"
      by (simp add: twoTiles_spawned_def)
    show ?thesis
    proof (cases i)
      case 0
      with t show ?thesis by (simp add: twoTiles_merged_def levelNum_def del: upt_Suc)
    next
      case (Suc j)
      with t that twoTiles_merged_nth[of i n s] show ?thesis
        by (simp add: levelNum_def Tile_new_def)
    qed
  qed
  have goal: "hasAchievedGoal ?g2 = Inr False"
  proof -
    from hasAchievedGoal_total[of ?g2] len obtain won where w: "hasAchievedGoal ?g2 = Inr won" by auto
    from hasAchievedGoal_Inr[OF w] len lv have "\<not> won" by fastforce
    with w show ?thesis by simp
  qed
  from notfull goal len show ?thesis
    by (simp add: updateStatus.simps isGameOver.simps bindE_def)
qed

lemma twoTiles_merged_spawnTile:
  assumes "spawnTile (twoTiles_merged n s) ds = Inr (g2, ds2)"
  shows "\<exists>k l. 1 \<le> k \<and> k < 16 \<and> (l = 1 \<or> l = 2) \<and> g2 = twoTiles_spawned n s k l"
proof -
  let ?b1 = "twoTiles_merged n s"
  from spawnTile_Inr[OF assms] twoTiles_merged_not_full[of n s] obtain k l where
    k: "k < boardSize ?b1" "isEmpty (tiles ?b1 ! k)" "l = 1 \<or> l = 2" and
    g2: "g2 = ?b1\<lparr>tiles := (tiles ?b1)[k := (tiles ?b1 ! k)\<lparr>level := Some l, status := Spawned\<rparr>]\<rparr>"
    by auto
  have k16: "k < 16" using k(1) by (simp add: twoTiles_merged_fields)
  with k(2) have k1: "1 \<le> k" by (simp add: twoTiles_merged_empty)
  have "g2 = twoTiles_spawned n s k l"
    using g2 twoTiles_merged_nth[OF k1 k16] by (simp add: twoTiles_spawned_def)
  with k1 k16 k(3) show ?thesis by blast
qed

lemma spawnIndex_Inl:
  "spawnIndex ts n ds = Inl e \<Longrightarrow> 0 < n \<Longrightarrow> n \<le> length ts \<Longrightarrow> e = DrawsExhausted"
  by (induction ds) (auto simp: Let_def bindE_Inl tileAt_def split: if_splits)

lemma spawnTile_Inl:
  assumes "spawnTile g ds = Inl e" "boardSize g \<le> length (tiles g)"
  shows "e = DrawsExhausted"
proof -
  from isFull_total[OF assms(2)] obtain full where f: "isFull g = Inr full" by blast
  show ?thesis
  proof (cases full)
    case True
    with f assms show ?thesis by (simp add: spawnTile_def bindE_def)
  next
    case False
    with isFull_Inr[OF f] have pos: "0 < boardSize g" by auto
    from assms(1) f False consider
      (a) "spawnIndex (tiles g) (boardSize g) ds = Inl e"
      | (b) idx ds1 where "spawnIndex (tiles g) (boardSize g) ds = Inr (idx, ds1)"
          "tileAt (tiles g) idx = Inl e"
      | (c) idx ds1 t where "spawnIndex (tiles g) (boardSize g) ds = Inr (idx, ds1)"
          "tileAt (tiles g) idx = Inr t" "spawn t ds1 = Inl e"
      by (auto simp: spawnTile_def bindE_Inl bindE_Inr)
    then show ?thesis
    proof cases
      case a
      from spawnIndex_Inl[OF a pos assms(2)] show ?thesis .
    next
      case b
      from spawnIndex_Inr[OF b(1)] b(2) show ?thesis by (simp add: tileAt_def)
    next
      case c
      then show ?thesis by (cases ds1) (auto simp: spawn_def bindE_Inl)
    qed
  qed
qed

lemma GameState_new_Inl:
  assumes "GameState_new r c t ds = Inl e"
  shows "e = DrawsExhausted"
proof -
  let ?g0 = "\<lparr>rows = r, columns = c, targetTileLevel = t,
                       tiles = map Tile_new [0..<r * c], score = 0,
                       gameStatus = InProgress\<rparr>"
  from assms consider (a) "spawnTile ?g0 ds = Inl e"
    | (b) g1 ds1 where "spawnTile ?g0 ds = Inr (g1, ds1)" "spawnTile g1 ds1 = Inl e"
    by (auto simp: GameState_new_def bindE_Inl)
  then show ?thesis
  proof cases
    case a
    then show ?thesis by (rule spawnTile_Inl) (simp add: boardSize_def)
  next
    case b
    from spawnTile_frame[OF b(1)] have "boardSize g1 \<le> length (tiles g1)"
      by (simp add: boardSize_def)
    with b(2) show ?thesis by (rule spawnTile_Inl)
  qed
qed

lemma GameState_clone_Inl:
  assumes "GameState_clone g ds = Inl e" "boardSize g \<le> length (tiles g)"
  shows "e = DrawsExhausted"
  using assms GameState_new_Inl[of "rows g" "columns g" "targetTileLevel g" ds e]
  by (auto simp: GameState_clone_def bindE_Inl)

lemma twoTiles_fields:
  "length (tiles (twoTiles st0 p0 q0 st1 p1 q1 s)) = 16" "boardSize (twoTiles st0 p0 q0 st1 p1 q1 s) = 16"
  "score (twoTiles st0 p0 q0 st1 p1 q1 s) = s" "rows (twoTiles st0 p0 q0 st1 p1 q1 s) = 4"
  "columns (twoTiles st0 p0 q0 st1 p1 q1 s) = 4" "targetTileLevel (twoTiles st0 p0 q0 st1 p1 q1 s) = 11"
  by (simp_all add: twoTiles_def boardSize_def del: upt_Suc)

lemma twoTiles_move:
  assumes "st0 \<noteq> Empty" "st1 \<noteq> Empty"
  shows "case move Left (twoTiles st0 p0 q0 st1 p1 q1 s) h ds of
           Inl e \<Rightarrow> e = DrawsExhausted
         | Inr (changed, g', h', ds') \<Rightarrow>
             changed \<and> h' = h @ [[Some 0, Some 1], [Some 1, Some 1], [Some 1], [Some 1]] \<and>
             (\<exists>k l. 1 \<le> k \<and> k < 16 \<and> (l = 1 \<or> l = 2) \<and> g' = twoTiles_spawned (length h) s k l)"
proof -
  let ?b = "twoTiles st0 p0 q0 st1 p1 q1 s"
  let ?b1 = "twoTiles_merged (length h) s"
  let ?h1 = "h @ [[Some 0, Some 1], [Some 1, Some 1], [Some 1], [Some 1]]"
  have gr: "gravitate Left (?b, h) = Inr (?b1, ?h1)"
    by (rule gravitate_twoTiles[OF assms(1,2)])
  show ?thesis
  proof (cases "GameState_clone ?b ds")
    case (Inl e)
    with GameState_clone_Inl[OF Inl] show ?thesis
      by (simp add: move.simps bindE_def twoTiles_fields)
  next
    case (Inr r)
    obtain oldState ds1 where r: "r = (oldState, ds1)" by (cases r)
    have "score oldState = s" using GameState_clone_frame[of ?b ds oldState ds1] Inr r
      by (simp add: twoTiles_fields)
    then have eq: "GameState_equals ?b1 oldState = Inr False"
      by (intro GameState_equals_score_diff) (simp add: twoTiles_merged_fields)
    show ?thesis
    proof (cases "spawnTile ?b1 ds1")
      case (Inl e)
      from spawnTile_Inl[OF Inl] Inl Inr r gr eq show ?thesis
        by (simp add: move.simps bindE_def twoTiles_merged_fields)
    next
      case sp: (Inr r2)
      obtain g2 ds2 where r2: "r2 = (g2, ds2)" by (cases r2)
      from twoTiles_merged_spawnTile[of "length h" s ds1 g2 ds2] sp r2 obtain k l where
        k: "1 \<le> k" "k < 16" "l = 1 \<or> l = 2" "g2 = twoTiles_spawned (length h) s k l" by auto
      from twoTiles_spawned_updateStatus[OF k(1,2,3), of "length h" s ?h1 ds2] k sp r2 Inr r gr eq
      show ?thesis
        by (auto simp: move.simps bindE_def)
    qed
  qed
qed


lemma nat_min_clamp: "0 < n \<Longrightarrow> nat (min (int n - 1) (int r)) = min (n - 1) r"
  by (cases "int n - 1 \<le> int r") (auto simp: min_def)

lemma spawn_Cons:
  "spawn t (r # rest) = Inr (t\<lparr>level := Some (if 9 \<le> r then 2 else 1), status := Spawned\<rparr>, rest)"
  by (auto simp: spawn_def bindE_def min_def)

lemma spawnTile_hit:
  assumes "boardSize g \<le> length (tiles g)" "isFull g = Inr False"
    and "isEmpty (tiles g ! nat (min (int (boardSize g) - 1) (int r)))"
  shows "spawnTile g (r # r2 # rest) =
     Inr (g\<lparr>tiles := (tiles g)[nat (min (int (boardSize g) - 1) (int r)) :=
             (tiles g ! nat (min (int (boardSize g) - 1) (int r)))
               \<lparr>level := Some (if 9 \<le> r2 then 2 else 1), status := Spawned\<rparr>]\<rparr>, rest)"
proof -
  from isFull_Inr[OF assms(2)] have pos: "0 < boardSize g" by auto
  with assms(1) have rng: "0 \<le> min (int (boardSize g) - 1) (int r)"
    "nat (min (int (boardSize g) - 1) (int r)) < length (tiles g)" by auto
  from rng assms(2,3) show ?thesis
    by (simp add: spawnTile_def bindE_def tileAt_def Let_def spawn_Cons)
qed

lemma GameState_new_hit:
  assumes "2 \<le> r * c" "min (r * c - 1) i1 \<noteq> min (r * c - 1) i2"
  shows "\<exists>g. GameState_new r c t (i1 # l1 # i2 # l2 # rest) = Inr (g, rest)"
proof -
  define n where "n = r * c"
  define g0 where "g0 = \<lparr>rows = r, columns = c, targetTileLevel = t,
                       tiles = map Tile_new [0..<r * c], score = 0,
                       gameStatus = InProgress\<rparr>"
  define k1 where "k1 = min (n - 1) i1"
  define k2 where "k2 = min (n - 1) i2"
  have "2 \<le> n" using assms(1) by (simp only: n_def)
  then have pos: "0 < n" "2 \<le> n" by simp_all
  have bs: "boardSize g0 = n" "length (tiles g0) = n" by (simp_all add: boardSize_def g0_def n_def)
  have c1: "nat (min (int (boardSize g0) - 1) (int i1)) = k1"
    unfolding bs k1_def by (rule nat_min_clamp[OF pos(1)])
  have klt: "k1 < n" "k2 < n" "k1 \<noteq> k2"
    using pos assms(2) by (simp_all add: k1_def k2_def n_def)
  have t0: "tiles g0 ! k = Tile_new k" if "k < n" for k
    using that by (simp add: g0_def n_def del: upt_Suc)
  have f0: "isFull g0 = Inr False"
    using isFull_fresh[OF pos(1)] by (simp add: isFull_def boardSize_def g0_def n_def)
  have e1: "isEmpty (tiles g0 ! nat (min (int (boardSize g0) - 1) (int i1)))"
    unfolding c1 using t0[OF klt(1)] by (simp add: isEmpty_def Tile_new_def)
  define g1 where "g1 = g0\<lparr>tiles := (tiles g0)[k1 := (tiles g0 ! k1)
               \<lparr>level := Some (if 9 \<le> l1 then 2 else 1), status := Spawned\<rparr>]\<rparr>"
  have s1: "spawnTile g0 (i1 # l1 # i2 # l2 # rest) = Inr (g1, i2 # l2 # rest)"
    using spawnTile_hit[of g0 i1 l1 "i2 # l2 # rest", OF _ f0 e1]
    unfolding c1 g1_def by (simp add: bs)
  have bs1: "boardSize g1 = n" "length (tiles g1) = n"
    using bs by (simp_all add: g1_def boardSize_def)
  have c2: "nat (min (int (boardSize g1) - 1) (int i2)) = k2"
    unfolding bs1 k2_def by (rule nat_min_clamp[OF pos(1)])
  have "tiles g1 ! k2 = Tile_new k2"
    using klt t0[OF klt(2)] by (simp add: g1_def)
  then have e2: "isEmpty (tiles g1 ! nat (min (int (boardSize g1) - 1) (int i2)))"
    unfolding c2 by (simp add: isEmpty_def Tile_new_def)
  have f1: "isFull g1 = Inr False"
  proof -
    from isFull_total[of g1] obtain full where f: "isFull g1 = Inr full" by (auto simp: bs1)
    from isFull_Inr[OF f] e2 klt(2) have "\<not> full" unfolding c2 by (auto simp: bs1)
    with f show ?thesis by simp
  qed
  have "\<exists>g. spawnTile g1 (i2 # l2 # rest) = Inr (g, rest)"
    using spawnTile_hit[of g1 i2 l2 rest, OF _ f1 e2] by (simp add: bs1)
  with s1 show ?thesis by (auto simp: GameState_new_def bindE_def g0_def)
qed

lemma GameState_clone_hit:
  assumes "2 \<le> boardSize g" "boardSize g \<le> length (tiles g)"
    "min (boardSize g - 1) i1 \<noteq> min (boardSize g - 1) i2"
  shows "\<exists>c. GameState_clone g (i1 # l1 # i2 # l2 # rest) = Inr (c, rest)"
  using GameState_new_hit[of "rows g" "columns g" i1 i2 "targetTileLevel g" l1 l2 rest] assms
  by (auto simp: GameState_clone_def bindE_def boardSize_def)

lemma twoTiles_move_hit:
  assumes "st0 \<noteq> Empty" "st1 \<noteq> Empty" "min 15 i1 \<noteq> min 15 i2" "1 \<le> min 15 k"
  shows "move Left (twoTiles st0 p0 q0 st1 p1 q1 s) h (i1 # l1 # i2 # l2 # k # l # rest) =
     Inr (True, twoTiles_spawned (length h) s (min 15 k) (if 9 \<le> l then 2 else 1),
          h @ [[Some 0, Some 1], [Some 1, Some 1], [Some 1], [Some 1]], rest)"
proof -
  let ?b = "twoTiles st0 p0 q0 st1 p1 q1 s"
  let ?b1 = "twoTiles_merged (length h) s"
  define h1 where "h1 = h @ [[Some 0, Some 1], [Some 1, Some 1], [Some 1], [Some (1::nat)]]"
  let ?k = "min 15 k"
  define lv :: nat where "lv = (if 9 \<le> l then 2 else 1)"
  have gr: "gravitate Left (?b, h) = Inr (?b1, h1)"
    unfolding h1_def by (rule gravitate_twoTiles[OF assms(1,2)])
  from GameState_clone_hit[of ?b i1 i2 l1 l2 "k # l # rest"] assms(3) obtain c where
    c: "GameState_clone ?b (i1 # l1 # i2 # l2 # k # l # rest) = Inr (c, k # l # rest)"
    by (auto simp: twoTiles_fields)
  have "score c = s" using GameState_clone_frame[OF c] by (simp add: twoTiles_fields)
  then have eq: "GameState_equals ?b1 c = Inr False"
    by (intro GameState_equals_score_diff) (simp add: twoTiles_merged_fields)
  have kk: "nat (min (int (boardSize ?b1) - 1) (int k)) = ?k"
    using nat_min_clamp[of 16 k] by (simp add: twoTiles_merged_fields)
  have k16: "?k < 16" by simp
  have "isEmpty (tiles ?b1 ! nat (min (int (boardSize ?b1) - 1) (int k)))"
    unfolding kk using twoTiles_merged_empty[OF k16, of "length h" s] assms(4) by simp
  from spawnTile_hit[of ?b1 k l rest, OF _ twoTiles_merged_not_full this]
  have sp: "spawnTile ?b1 (k # l # rest) = Inr (twoTiles_spawned (length h) s ?k lv, rest)"
    unfolding kk twoTiles_spawned_def twoTiles_merged_nth[OF assms(4) k16] lv_def
    by (simp add: twoTiles_merged_fields)
  have us: "updateStatus (twoTiles_spawned (length h) s ?k lv) h1 rest =
              Inr (twoTiles_spawned (length h) s ?k lv, h1, rest)"
    by (rule twoTiles_spawned_updateStatus[OF assms(4) k16]) (simp add: lv_def)
  have "move Left ?b h (i1 # l1 # i2 # l2 # k # l # rest) =
          Inr (True, twoTiles_spawned (length h) s ?k lv, h1, rest)"
    by (simp add: move.simps[of Left ?b] c gr eq sp us bindE_def)
  then show ?thesis by (simp only: lv_def h1_def)
qed


subsection \<open>Reachable boards\<close>

text \<open>
  \<open>reaches g h g' h'\<close>: the board \<open>g'\<close> with the store \<open>h'\<close> comes from \<open>g\<close> with \<open>h\<close> by
  calls of \<open>move\<close>, \<open>gravitate\<close>, \<open>spawnTile\<close> and \<open>updateStatus\<close> that return. A board
  is reachable when it comes in this way from a board the constructor returned.
\<close>

inductive reaches :: "GameState \<Rightarrow> heap \<Rightarrow> GameState \<Rightarrow> heap \<Rightarrow> bool" for g h where
  start: "reaches g h g h"
| by_move: "reaches g h g1 h1 \<Longrightarrow> move direction g1 h1 ds = Inr (changed, g2, h2, ds') \<Longrightarrow>
            reaches g h g2 h2"
| by_gravitate: "reaches g h g1 h1 \<Longrightarrow> gravitate direction (g1, h1) = Inr (g2, h2) \<Longrightarrow>
            reaches g h g2 h2"
| by_spawnTile: "reaches g h g1 h1 \<Longrightarrow> spawnTile g1 ds = Inr (g2, ds') \<Longrightarrow> reaches g h g2 h1"
| by_updateStatus: "reaches g h g1 h1 \<Longrightarrow> updateStatus g1 h1 ds = Inr (g2, h2, ds') \<Longrightarrow>
            reaches g h g2 h2"

definition reachable :: "GameState \<Rightarrow> heap \<Rightarrow> bool" where
  "reachable g h =
     (\<exists>r c target ds g0 ds0 h0. GameState_new r c target ds = Inr (g0, ds0) \<and> reaches g0 h0 g h)"

text \<open>\<open>move\<close> is \<open>gravitate\<close>, then possibly \<open>spawnTile\<close> and \<open>updateStatus\<close>; so what these
  three keep, every reachable board has.\<close>

lemma reaches_invariant:
  assumes "reaches g h g' h'" and "P g h"
    and gr: "\<And>g1 h1 direction g2 h2. P g1 h1 \<Longrightarrow> gravitate direction (g1, h1) = Inr (g2, h2) \<Longrightarrow> P g2 h2"
    and sp: "\<And>g1 h1 ds g2 ds'. P g1 h1 \<Longrightarrow> spawnTile g1 ds = Inr (g2, ds') \<Longrightarrow> P g2 h1"
    and up: "\<And>g1 h1 ds g2 h2 ds'. P g1 h1 \<Longrightarrow> updateStatus g1 h1 ds = Inr (g2, h2, ds') \<Longrightarrow> P g2 h2"
  shows "P g' h'"
  using assms(1)
proof (induction rule: reaches.induct)
  case start
  show ?case by (rule assms(2))
next
  case (by_move g1 h1 direction ds changed g2 h2 ds')
  show ?case
  proof (cases changed)
    case False
    with by_move.hyps(2) have "move direction g1 h1 ds = Inr (False, g2, h2, ds')" by simp
    from move_False[OF this] by_move.IH show ?thesis by (auto intro: gr)
  next
    case True
    with by_move.hyps(2) have "move direction g1 h1 ds = Inr (True, g2, h2, ds')" by simp
    from move_True[OF this] obtain ds1 g3 h3 g4 ds2 where
      a: "gravitate direction (g1, h1) = Inr (g3, h3)" and
      b: "spawnTile g3 ds1 = Inr (g4, ds2)" and
      c: "updateStatus g4 h3 ds2 = Inr (g2, h2, ds')"
      by blast
    from up[OF sp[OF gr[OF by_move.IH a] b] c] show ?thesis .
  qed
next
  case (by_gravitate g1 h1 direction g2 h2)
  then show ?case by (auto intro: gr)
next
  case (by_spawnTile g1 h1 ds g2 ds')
  then show ?case by (auto intro: sp)
next
  case (by_updateStatus g1 h1 ds g2 h2 ds')
  then show ?case by (auto intro: up)
qed

lemma updateStatus_tiles:
  assumes "updateStatus g h ds = Inr (g', h', ds')"
  shows "g' = g\<lparr>gameStatus := gameStatus g'\<rparr> \<and> heapExt h h'"
  using updateStatus_Inr[OF assms] move_heapExt(2)[of g h ds] assms by auto

lemma reaches_score:
  assumes "reaches g h g' h'"
  shows "score g \<le> score g'"
proof (rule reaches_invariant[OF assms, where P = "\<lambda>g' h'. score g \<le> score g'"], goal_cases)
  case 1
  show ?case by simp
next
  case (2 g1 h1 direction g2 h2)
  with gravitate_frame[OF 2(2)] show ?case by simp
next
  case (3 g1 h1 ds g2 ds')
  with spawnTile_frame[OF 3(2)] show ?case by simp
next
  case (4 g1 h1 ds g2 h2 ds')
  from updateStatus_tiles[OF 4(2)] have "g2 = g1\<lparr>gameStatus := gameStatus g2\<rparr>" by simp
  then have "score g2 = score g1" by (metis GameState.select_convs(5) GameState.surjective GameState.update_convs(6))
  with 4 show ?case by simp
qed

lemma reaches_heapExt:
  assumes "reaches g h g' h'"
  shows "heapExt h h'"
proof (rule reaches_invariant[OF assms, where P = "\<lambda>g' h'. heapExt h h'"], goal_cases)
  case 1
  show ?case by simp
next
  case (2 g1 h1 direction g2 h2)
  with gravitate_heapExt[OF 2(2)] show ?case by (auto intro: heapExt_trans)
next
  case (3 g1 h1 ds g2 ds')
  then show ?case by simp
next
  case (4 g1 h1 ds g2 h2 ds')
  with updateStatus_tiles[OF 4(2)] show ?case by (auto intro: heapExt_trans)
qed

subsection \<open>A board of three cells\<close>

text \<open>The board \<open>new GameState(1, 3, 11)\<close> when the two spawns draw the cells 0 and 1 and
  level 1; the same board after the two loops of \<open>gravitate(Left)\<close>; and after \<open>move(Left)\<close>
  when the spawn draws the cell 1 and level 1.\<close>

definition rowBoard :: GameState where
  "rowBoard =
     \<lparr>rows = 1, columns = 3, targetTileLevel = 11,
      tiles = [\<lparr>index = 0, level = Some 1, prevIndex = None, prevLevel = None, status = Spawned\<rparr>,
               \<lparr>index = 1, level = Some 1, prevIndex = None, prevLevel = None, status = Spawned\<rparr>,
               Tile_new 2],
      score = 0, gameStatus = InProgress\<rparr>"

definition rowBoard_slid :: GameState where
  "rowBoard_slid =
     \<lparr>rows = 1, columns = 3, targetTileLevel = 11,
      tiles = [\<lparr>index = 0, level = Some 2, prevIndex = Some 0, prevLevel = Some 1, status = Merged\<rparr>,
               Tile_new 1, Tile_new 2],
      score = 4, gameStatus = InProgress\<rparr>"

definition rowBoard_moved :: GameState where
  "rowBoard_moved =
     \<lparr>rows = 1, columns = 3, targetTileLevel = 11,
      tiles = [\<lparr>index = 0, level = Some 2, prevIndex = Some 0, prevLevel = Some 1, status = Merged\<rparr>,
               \<lparr>index = 1, level = Some 1, prevIndex = None, prevLevel = None, status = Spawned\<rparr>,
               Tile_new 2],
      score = 4, gameStatus = InProgress\<rparr>"

definition rowStore :: heap where
  "rowStore = [[Some 0, Some 1], [Some 1, Some 1], [Some 1], [Some 1]]"

lemma rowBoard_new: "GameState_new 1 3 11 [0, 0, 1, 0] = Inr (rowBoard, [])"
  unfolding rowBoard_def by code_simp

lemma rowBoard_gravitate: "gravitate Left (rowBoard, []) = Inr (rowBoard_slid, rowStore)"
  unfolding rowBoard_def rowBoard_slid_def rowStore_def by code_simp

lemma rowBoard_move:
  "move Left rowBoard [] [0, 0, 1, 0, 1, 0] = Inr (True, rowBoard_moved, rowStore, [])"
  unfolding rowBoard_def rowBoard_moved_def rowStore_def by code_simp

subsection \<open>Tiles and their history arrays\<close>

text \<open>
  \<open>tidy\<close>: what every tile is after \<open>gravitate\<close>, if the empty tiles had no arrays before:
  not Spawned, and without arrays when empty.
\<close>

definition tidy :: "Tile \<Rightarrow> bool" where
  "tidy t = (status t \<noteq> Spawned \<and> (isEmpty t \<longrightarrow> prevIndex t = None \<and> prevLevel t = None))"

definition emptyNull :: "GameState \<Rightarrow> bool" where
  "emptyNull g = (\<forall>k. inBoard g k \<and> isEmpty (cell g k) \<longrightarrow>
                    prevIndex (cell g k) = None \<and> prevLevel (cell g k) = None)"

definition tidyBoard :: "GameState \<Rightarrow> bool" where
  "tidyBoard g = (\<forall>k. inBoard g k \<longrightarrow> tidy (cell g k))"

text \<open>Whatever the prepared board has and both steps keep, the board has after the pass.\<close>

lemma gravitate_invariant:
  assumes run: "gravitate direction (g, h) = Inr (g', h')"
    and init: "\<And>gp hp. forE [0..<boardSize g] prepareTile (g, h) = Inr (gp, hp) \<Longrightarrow> P gp hp"
    and mv: "\<And>g h c tile nextTile. P g h \<Longrightarrow> mergedSettled g (indexChange g0 direction) \<Longrightarrow>
          stepOK g (indexChange g0 direction) c \<Longrightarrow> 0 \<le> c \<Longrightarrow>
          c < int (boardSize g) \<Longrightarrow> tileAt (tiles g) c = Inr tile \<Longrightarrow>
          tileAt (tiles g) (c + indexChange g0 direction) = Inr nextTile \<Longrightarrow> isEmpty nextTile \<Longrightarrow>
          \<not> isEmpty tile \<Longrightarrow> status tile \<noteq> Merged \<Longrightarrow>
          P (moved g c (c + indexChange g0 direction) tile nextTile) h"
    and mg: "\<And>g h c tile nextTile tile' nextTile' h'. P g h \<Longrightarrow>
          mergedSettled g (indexChange g0 direction) \<Longrightarrow>
          stepOK g (indexChange g0 direction) c \<Longrightarrow> 0 \<le> c \<Longrightarrow> c < int (boardSize g) \<Longrightarrow>
          tileAt (tiles g) c = Inr tile \<Longrightarrow>
          tileAt (tiles g) (c + indexChange g0 direction) = Inr nextTile \<Longrightarrow> \<not> isEmpty nextTile \<Longrightarrow>
          ableToMerge tile \<Longrightarrow> ableToMerge nextTile \<Longrightarrow> level tile = level nextTile \<Longrightarrow>
          mergeWith tile nextTile h = Inr (tile', nextTile', h') \<Longrightarrow>
          P (merged g c (c + indexChange g0 direction) tile' nextTile') h'"
    and g0: "g0 = g"
  shows "P g' h'"
proof -
  let ?d = "indexChange g direction"
  from run obtain gp hp where
    a: "forE [0..<boardSize g] prepareTile (g, h) = Inr (gp, hp)" and
    b: "forE [0..<boardSize g] (\<lambda>i. gravitateTile (int i) ?d) (gp, hp) = Inr (g', h')"
    by (auto simp: gravitate_def bindE_Inr)
  from prepare_pass[OF a] have n: "boardSize g \<le> length (tiles g)" and fr: "sameFrame g gp"
    and nm: "\<And>k. inBoard g k \<Longrightarrow> status (cell gp k) \<noteq> Merged"
    by simp_all
  have bs: "boardSize gp = boardSize g" using sameFrame_dims[OF fr] by simp
  have ms: "mergedSettled gp ?d"
    unfolding mergedSettled_def using nm by (auto simp: inBoard_def bs)
  let ?Q = "\<lambda>s. sameFrame g (fst s) \<and> mergedSettled (fst s) ?d \<and> P (fst s) (snd s)"
  have "?Q (g', h')"
  proof (rule forE_invariant[OF b, where P = ?Q], goal_cases)
    case 1
    show ?case using fr ms init[OF a] by simp
  next
    case (2 i s s')
    obtain g1 h1 g2 h2 where s: "s = (g1, h1)" "s' = (g2, h2)" by (cases s, cases s') auto
    from 2 s have Q: "sameFrame g g1" "mergedSettled g1 ?d" "P g1 h1"
      and r: "gravitateTile (int i) ?d (g1, h1) = Inr (g2, h2)" and i: "i < boardSize g"
      by simp_all
    note d = sameFrame_dims[OF Q(1)]
    have i': "0 \<le> int i" "int i < int (boardSize g1)" "boardSize g1 \<le> length (tiles g1)"
      using i n d by simp_all
    have "P g2 h2 \<and> mergedSettled g2 ?d \<and> settled g2 ?d (int i) \<and>
         (\<forall>c. 0 \<le> c \<and> \<not> ahead g1 ?d (int i) c \<longrightarrow> cell g2 c = cell g1 c)"
      by (rule gravitateTile_settles[OF r i' Q(2), where P = P, OF Q(3)])
         (erule (9) mv[unfolded g0], erule (11) mg[unfolded g0])
    moreover from gravitateTile_frame[OF r] Q(1) have "sameFrame g g2"
      by (auto intro: sameFrame_trans)
    ultimately show ?case using s by simp
  qed
  then show ?thesis by simp
qed

lemma gravitate_tidy:
  assumes run: "gravitate direction (g, h) = Inr (g', h')" and en: "emptyNull g"
  shows "tidyBoard g'"
proof (rule gravitate_invariant[OF run, where P = "\<lambda>g h. tidyBoard g" and ?g0.0 = g], goal_cases)
  case (1 gp hp)
  from prepare_loop[OF 1] have p: "preparedUpTo (boardSize g) g h gp hp" by simp
  then have fr: "sameFrame g gp"
    and prep: "\<And>k. k < boardSize g \<Longrightarrow> prepared h hp (tiles g ! k) (tiles gp ! k)"
    by (simp_all add: preparedUpTo_def)
  have bs: "boardSize gp = boardSize g" using sameFrame_dims[OF fr] by simp
  show ?case
    unfolding tidyBoard_def
  proof (intro allI impI)
    fix k assume "inBoard gp k"
    then have k: "inBoard g k" "nat k < boardSize g" by (auto simp: inBoard_def bs)
    from prep[OF k(2)] en k(1) show "tidy (cell gp k)"
      by (auto simp: prepared_def tidy_def emptyNull_def cell_def isEmpty_def split: if_splits)
  qed
next
  case (2 g1 h1 c tile nextTile)
  note mc = moved_cells[OF 2(3,4,6,7,9)]
  show ?case
    unfolding tidyBoard_def
  proof (intro allI impI)
    fix k assume "inBoard (moved g1 c (c + indexChange g direction) tile nextTile) k"
    then have k: "inBoard g1 k" by simp
    with 2(1) have "tidy (cell g1 k)" by (simp add: tidyBoard_def)
    with mc[OF k] show "tidy (cell (moved g1 c (c + indexChange g direction) tile nextTile) k)"
      by (auto simp: tidy_def reset_def isEmpty_def)
  qed
next
  case (3 g1 h1 c tile nextTile tile' nextTile' h2)
  note mc = merged_cells[OF 3(3,4,6,7), of _ tile' nextTile']
  have te: "\<not> isEmpty tile" using 3(9) by (simp add: ableToMerge_def isEmpty_def)
  note mw = mergeWith_Inr[OF 3(12)]
  show ?case
    unfolding tidyBoard_def
  proof (intro allI impI)
    fix k assume "inBoard (merged g1 c (c + indexChange g direction) tile' nextTile') k"
    then have k: "inBoard g1 k" by simp
    with 3(1) have "tidy (cell g1 k)" by (simp add: tidyBoard_def)
    with mc[OF k] mw te
    show "tidy (cell (merged g1 c (c + indexChange g direction) tile' nextTile') k)"
      by (auto simp: tidy_def reset_def isEmpty_def)
  qed
qed simp

text \<open>
  The invariant of the reachable boards: an Empty or Spawned tile has no history arrays;
  a tile of any other status has both, of equal length.
\<close>

definition tileInv :: "heap \<Rightarrow> Tile \<Rightarrow> bool" where
  "tileInv h t =
     (if status t = Empty \<or> status t = Spawned then prevIndex t = None \<and> prevLevel t = None
      else (\<exists>ri rl. prevIndex t = Some ri \<and> prevLevel t = Some rl \<and> ri < length h \<and>
              rl < length h \<and> length (arr h ri) = length (arr h rl)))"

definition boardInv :: "GameState \<Rightarrow> heap \<Rightarrow> bool" where
  "boardInv g h = (\<forall>k < boardSize g. tileInv h (tiles g ! k))"

lemma tileInv_heapExt: "heapExt h h' \<Longrightarrow> tileInv h t \<Longrightarrow> tileInv h' t"
  using heapExt_arr[of h h'] by (auto simp: tileInv_def heapExt_def split: if_splits)

lemma boardInv_emptyNull: "boardInv g h \<Longrightarrow> emptyNull g"
  by (auto simp: boardInv_def emptyNull_def tileInv_def inBoard_def cell_def isEmpty_def)

lemma gravitate_boardInv:
  assumes run: "gravitate direction (g, h) = Inr (g', h')" and inv: "boardInv g h"
  shows "boardInv g' h'"
  unfolding boardInv_def
proof (intro allI impI)
  fix k assume k: "k < boardSize g'"
  from gravitate_pass[OF run] have f: "sameFrame g g'" and ow: "owned (length h) g' h'"
    and ho: "histOK g g' h'" by (simp_all add: passInv_def)
  from gravitate_tidy[OF run boardInv_emptyNull[OF inv]] have td: "tidyBoard g'" .
  have ib: "inBoard g' (int k)" using k by (simp add: inBoard_def)
  have c: "cell g' (int k) = tiles g' ! k" by (simp add: cell_def)
  from td ib c have t: "tidy (tiles g' ! k)" by (auto simp: tidyBoard_def)
  show "tileInv h' (tiles g' ! k)"
  proof (cases "isEmpty (tiles g' ! k)")
    case True
    with t show ?thesis by (simp add: tileInv_def tidy_def isEmpty_def)
  next
    case False
    from ow have "\<exists>ri rl. prevIndex (cell g' (int k)) = Some ri \<and>
        prevLevel (cell g' (int k)) = Some rl \<and> length h \<le> ri \<and> ri < length h' \<and>
        length h \<le> rl \<and> rl < length h' \<and> ri \<noteq> rl"
    proof -
      from False c have "\<not> isEmpty (cell g' (int k))" by simp
      with ow ib show ?thesis by (simp add: owned_def)
    qed
    with c obtain ri rl where r: "prevIndex (tiles g' ! k) = Some ri"
      "prevLevel (tiles g' ! k) = Some rl" "ri < length h'" "rl < length h'"
      by auto
    from ho ib c False have "histAt g h' (tiles g' ! k)" by (auto simp: histOK_def)
    then have "length (histI h' (tiles g' ! k)) = length (histL h' (tiles g' ! k))"
      by (auto simp: histAt_def split: if_splits)
    with r False t show ?thesis
      by (simp add: tileInv_def tidy_def isEmpty_def histI_def histL_def)
  qed
qed

lemma spawnTile_boardInv:
  assumes run: "spawnTile g ds = Inr (g', ds')" and inv: "boardInv g h"
  shows "boardInv g' h"
proof -
  from spawnTile_Inr[OF run] have "g' = g \<or>
      (\<exists>k l. k < boardSize g \<and> k < length (tiles g) \<and> isEmpty (tiles g ! k) \<and>
         g' = g\<lparr>tiles := (tiles g)[k := (tiles g ! k)\<lparr>level := Some l, status := Spawned\<rparr>]\<rparr>)"
    by auto
  then show ?thesis
  proof (elim disjE exE conjE)
    assume "g' = g"
    with inv show ?thesis by simp
  next
    fix k l
    assume k: "k < boardSize g" "k < length (tiles g)" "isEmpty (tiles g ! k)"
      and g': "g' = g\<lparr>tiles := (tiles g)[k := (tiles g ! k)\<lparr>level := Some l, status := Spawned\<rparr>]\<rparr>"
    show ?thesis
      unfolding boardInv_def
    proof (intro allI impI)
      fix j assume "j < boardSize g'"
      then have j: "j < boardSize g" by (simp add: g' boardSize_def)
      with inv have tj: "tileInv h (tiles g ! j)" by (simp add: boardInv_def)
      show "tileInv h (tiles g' ! j)"
      proof (cases "j = k")
        case True
        with tj k show ?thesis by (simp add: g' tileInv_def isEmpty_def)
      next
        case False
        with tj show ?thesis by (simp add: g')
      qed
    qed
  qed
qed

lemma updateStatus_boardInv:
  assumes run: "updateStatus g h ds = Inr (g', h', ds')" and inv: "boardInv g h"
  shows "boardInv g' h'"
proof -
  from updateStatus_tiles[OF run] have g': "g' = g\<lparr>gameStatus := gameStatus g'\<rparr>"
    and e: "heapExt h h'" by simp_all
  have "tiles g' = tiles g" "boardSize g' = boardSize g"
    by (subst g', simp add: boardSize_def)+
  with inv tileInv_heapExt[OF e] show ?thesis by (simp add: boardInv_def)
qed

definition noArrays :: "GameState \<Rightarrow> bool" where
  "noArrays g = (\<forall>k < length (tiles g). prevIndex (tiles g ! k) = None \<and>
                   prevLevel (tiles g ! k) = None \<and>
                   (status (tiles g ! k) = Empty \<or> status (tiles g ! k) = Spawned))"

lemma spawnTile_noArrays:
  assumes "spawnTile g ds = Inr (g', ds')" and "noArrays g"
  shows "noArrays g'"
proof -
  from spawnTile_Inr[OF assms(1)] have "g' = g \<or>
      (\<exists>k l. k < length (tiles g) \<and>
         g' = g\<lparr>tiles := (tiles g)[k := (tiles g ! k)\<lparr>level := Some l, status := Spawned\<rparr>]\<rparr>)"
    by auto
  then show ?thesis
  proof (elim disjE exE conjE)
    assume "g' = g"
    with assms(2) show ?thesis by simp
  next
    fix k l
    assume k: "k < length (tiles g)"
      and g': "g' = g\<lparr>tiles := (tiles g)[k := (tiles g ! k)\<lparr>level := Some l, status := Spawned\<rparr>]\<rparr>"
    show ?thesis
      unfolding noArrays_def
    proof (intro allI impI)
      fix j assume "j < length (tiles g')"
      then have j: "j < length (tiles g)" by (simp add: g')
      with assms(2) k show "prevIndex (tiles g' ! j) = None \<and> prevLevel (tiles g' ! j) = None \<and>
                   (status (tiles g' ! j) = Empty \<or> status (tiles g' ! j) = Spawned)"
        by (cases "j = k") (simp_all add: g' noArrays_def)
    qed
  qed
qed

lemma GameState_new_noArrays:
  assumes "GameState_new r c target ds = Inr (g, ds')"
  shows "noArrays g"
proof -
  let ?g0 = "\<lparr>rows = r, columns = c, targetTileLevel = target,
                       tiles = map Tile_new [0..<r * c], score = 0,
                       gameStatus = InProgress\<rparr>"
  from assms obtain g1 ds1 where
    a: "spawnTile ?g0 ds = Inr (g1, ds1)" and b: "spawnTile g1 ds1 = Inr (g, ds')"
    by (auto simp: GameState_new_def bindE_Inr)
  have "noArrays ?g0" by (simp add: noArrays_def Tile_new_def)
  from spawnTile_noArrays[OF b spawnTile_noArrays[OF a this]] show ?thesis .
qed

lemma GameState_new_boardInv:
  assumes "GameState_new r c target ds = Inr (g, ds')"
  shows "boardInv g h"
proof -
  from GameState_new_frame[OF assms] have "boardSize g = length (tiles g)"
    by (simp add: boardSize_def)
  with GameState_new_noArrays[OF assms] show ?thesis
    by (simp add: boardInv_def tileInv_def noArrays_def)
qed

lemma reachable_boardInv:
  assumes "reachable g h"
  shows "boardInv g h"
proof -
  from assms obtain r c target ds g0 ds0 h0 where
    n: "GameState_new r c target ds = Inr (g0, ds0)" and re: "reaches g0 h0 g h"
    by (auto simp: reachable_def)
  show ?thesis
  proof (rule reaches_invariant[OF re, where P = boardInv], goal_cases)
    case 1
    show ?case by (rule GameState_new_boardInv[OF n])
  next
    case (2 g1 h1 direction g2 h2)
    then show ?case by (auto intro: gravitate_boardInv)
  next
    case (3 g1 h1 ds g2 ds')
    then show ?case by (auto intro: spawnTile_boardInv)
  next
    case (4 g1 h1 ds g2 h2 ds')
    then show ?case by (auto intro: updateStatus_boardInv)
  qed
qed

subsection \<open>Snapshots\<close>

text \<open>What can be seen of a tile and of a board: the fields, and the contents of the
  history arrays (\<open>None\<close> for \<open>null\<close>).\<close>

definition tileView :: "heap \<Rightarrow> Tile \<Rightarrow> nat \<times> nat option \<times> TileStatus \<times> nat option list option \<times> nat option list option" where
  "tileView h t =
     (index t, level t, status t, map_option (arr h) (prevIndex t), map_option (arr h) (prevLevel t))"

definition boardView :: "heap \<Rightarrow> GameState \<Rightarrow> int \<times> (nat \<times> nat option \<times> TileStatus \<times> nat option list option \<times> nat option list option) list" where
  "boardView h g = (score g, map (tileView h) (tiles g))"

text \<open>The arrays of the tile are arrays of the store.\<close>

definition allocated :: "heap \<Rightarrow> Tile \<Rightarrow> bool" where
  "allocated h t =
     ((case prevIndex t of None \<Rightarrow> True | Some r \<Rightarrow> r < length h) \<and>
      (case prevLevel t of None \<Rightarrow> True | Some r \<Rightarrow> r < length h))"

lemma tileView_heapExt: "heapExt h h' \<Longrightarrow> allocated h t \<Longrightarrow> tileView h' t = tileView h t"
  using heapExt_arr[of h h']
  by (auto simp: tileView_def allocated_def split: option.splits)

text \<open>A board of two cells: as the constructor returns it; after \<open>move(Up)\<close>, which changes
  nothing but prepares the tiles; and after \<open>gravitateTile(1, -1)\<close> on that.\<close>

definition pairBoard_new :: GameState where
  "pairBoard_new =
     \<lparr>rows = 1, columns = 2, targetTileLevel = 11,
      tiles = [\<lparr>index = 0, level = Some 1, prevIndex = None, prevLevel = None, status = Spawned\<rparr>,
               \<lparr>index = 1, level = Some 1, prevIndex = None, prevLevel = None, status = Spawned\<rparr>],
      score = 0, gameStatus = InProgress\<rparr>"

definition pairBoard :: GameState where
  "pairBoard =
     \<lparr>rows = 1, columns = 2, targetTileLevel = 11,
      tiles = [\<lparr>index = 0, level = Some 1, prevIndex = Some 0, prevLevel = Some 1, status = Still\<rparr>,
               \<lparr>index = 1, level = Some 1, prevIndex = Some 2, prevLevel = Some 3, status = Still\<rparr>],
      score = 0, gameStatus = InProgress\<rparr>"

definition pairStore :: heap where
  "pairStore = [[Some 0], [Some 1], [Some 1], [Some 1]]"

definition pairBoard_merged :: GameState where
  "pairBoard_merged =
     \<lparr>rows = 1, columns = 2, targetTileLevel = 11,
      tiles = [\<lparr>index = 0, level = Some 2, prevIndex = Some 0, prevLevel = Some 1, status = Merged\<rparr>,
               Tile_new 1],
      score = 4, gameStatus = InProgress\<rparr>"

text \<open>The board \<open>rowBoard_moved\<close> after another \<open>move(Left)\<close>, which changes nothing but
  prepares the tiles.\<close>

definition rowBoard_still :: GameState where
  "rowBoard_still =
     \<lparr>rows = 1, columns = 3, targetTileLevel = 11,
      tiles = [\<lparr>index = 0, level = Some 2, prevIndex = Some 4, prevLevel = Some 5, status = Still\<rparr>,
               \<lparr>index = 1, level = Some 1, prevIndex = Some 6, prevLevel = Some 7, status = Still\<rparr>,
               Tile_new 2],
      score = 4, gameStatus = InProgress\<rparr>"

definition rowStore_still :: heap where
  "rowStore_still = rowStore @ [[Some 0], [Some 2], [Some 1], [Some 1]]"

subsection \<open>Full boards\<close>

text \<open>The second loop of \<open>gravitate\<close>, over any indices of the board.\<close>

lemma slide_invariant:
  assumes run: "forE is (\<lambda>i. gravitateTile (int i) d) (g, h) = Inr (g', h')"
    and bound: "\<forall>i \<in> set is. i < boardSize g" "boardSize g \<le> length (tiles g)"
    and ms: "mergedSettled g d" and init: "P g h"
    and mv: "\<And>g h c tile nextTile. P g h \<Longrightarrow> mergedSettled g d \<Longrightarrow>
          stepOK g d c \<Longrightarrow> 0 \<le> c \<Longrightarrow>
          c < int (boardSize g) \<Longrightarrow> tileAt (tiles g) c = Inr tile \<Longrightarrow>
          tileAt (tiles g) (c + d) = Inr nextTile \<Longrightarrow> isEmpty nextTile \<Longrightarrow>
          \<not> isEmpty tile \<Longrightarrow> status tile \<noteq> Merged \<Longrightarrow>
          P (moved g c (c + d) tile nextTile) h"
    and mg: "\<And>g h c tile nextTile tile' nextTile' h'. P g h \<Longrightarrow>
          mergedSettled g d \<Longrightarrow>
          stepOK g d c \<Longrightarrow> 0 \<le> c \<Longrightarrow> c < int (boardSize g) \<Longrightarrow>
          tileAt (tiles g) c = Inr tile \<Longrightarrow>
          tileAt (tiles g) (c + d) = Inr nextTile \<Longrightarrow> \<not> isEmpty nextTile \<Longrightarrow>
          ableToMerge tile \<Longrightarrow> ableToMerge nextTile \<Longrightarrow> level tile = level nextTile \<Longrightarrow>
          mergeWith tile nextTile h = Inr (tile', nextTile', h') \<Longrightarrow>
          P (merged g c (c + d) tile' nextTile') h'"
  shows "P g' h' \<and> mergedSettled g' d \<and> sameFrame g g' \<and> score g \<le> score g'"
proof -
  let ?Q = "\<lambda>s. sameFrame g (fst s) \<and> score g \<le> score (fst s) \<and>
                 mergedSettled (fst s) d \<and> P (fst s) (snd s)"
  have "?Q (g', h')"
  proof (rule forE_invariant[OF run, where P = ?Q], goal_cases)
    case 1
    show ?case using ms init by simp
  next
    case (2 i s s')
    obtain g1 h1 g2 h2 where s: "s = (g1, h1)" "s' = (g2, h2)" by (cases s, cases s') auto
    from 2 s have Q: "sameFrame g g1" "mergedSettled g1 d" "P g1 h1" "score g \<le> score g1"
      and r: "gravitateTile (int i) d (g1, h1) = Inr (g2, h2)" and i: "i \<in> set is"
      by simp_all
    note dm = sameFrame_dims[OF Q(1)]
    have i': "0 \<le> int i" "int i < int (boardSize g1)" "boardSize g1 \<le> length (tiles g1)"
      using i bound dm by simp_all
    have "P g2 h2 \<and> mergedSettled g2 d \<and> settled g2 d (int i) \<and>
         (\<forall>c. 0 \<le> c \<and> \<not> ahead g1 d (int i) c \<longrightarrow> cell g2 c = cell g1 c)"
      by (rule gravitateTile_settles[OF r i' Q(2), where P = P, OF Q(3)])
         (erule (9) mv, erule (11) mg)
    moreover from gravitateTile_frame[OF r] Q(1,4) have "sameFrame g g2" "score g \<le> score g2"
      by (auto intro: sameFrame_trans)
    ultimately show ?case using s by simp
  qed
  then show ?thesis by simp
qed




















subsection \<open>A pass that changes nothing\<close>

text \<open>A tile is empty exactly when its level is \<open>null\<close>.\<close>

definition wellLevelled :: "GameState \<Rightarrow> bool" where
  "wellLevelled g = (\<forall>k < boardSize g. isEmpty (tiles g ! k) = (level (tiles g ! k) = None))"

lemma wellLevelled_cells:
  "wellLevelled g \<longleftrightarrow> (\<forall>k. inBoard g k \<longrightarrow> isEmpty (cell g k) = (level (cell g k) = None))"
proof
  assume w: "wellLevelled g"
  show "\<forall>k. inBoard g k \<longrightarrow> isEmpty (cell g k) = (level (cell g k) = None)"
  proof (intro allI impI)
    fix k assume "inBoard g k"
    then have "nat k < boardSize g" by (auto simp: inBoard_def)
    with w show "isEmpty (cell g k) = (level (cell g k) = None)"
      by (simp add: wellLevelled_def cell_def)
  qed
next
  assume c: "\<forall>k. inBoard g k \<longrightarrow> isEmpty (cell g k) = (level (cell g k) = None)"
  show "wellLevelled g"
    unfolding wellLevelled_def
  proof (intro allI impI)
    fix k assume "k < boardSize g"
    then have "inBoard g (int k)" by (simp add: inBoard_def)
    with c have "isEmpty (cell g (int k)) = (level (cell g (int k)) = None)" by blast
    then show "isEmpty (tiles g ! k) = (level (tiles g ! k) = None)" by (simp add: cell_def)
  qed
qed

lemma gravitate_wellLevelled:
  assumes run: "gravitate direction (g, h) = Inr (g', h')" and w: "wellLevelled g"
  shows "wellLevelled g'"
proof -
  let ?P = "\<lambda>g (h::heap). \<forall>k. inBoard g k \<longrightarrow> isEmpty (cell g k) = (level (cell g k) = None)"
  have "?P g' h'"
  proof (rule gravitate_invariant[OF run, where P = ?P and ?g0.0 = g], goal_cases)
    case (1 gp hp)
    from prepare_loop[OF 1] have p: "preparedUpTo (boardSize g) g h gp hp" by simp
    then have fr: "sameFrame g gp"
      and prep: "\<And>k. k < boardSize g \<Longrightarrow> prepared h hp (tiles g ! k) (tiles gp ! k)"
      by (simp_all add: preparedUpTo_def)
    have bs: "boardSize gp = boardSize g" using sameFrame_dims[OF fr] by simp
    show ?case
    proof (intro allI impI)
      fix k assume "inBoard gp k"
      then have k: "nat k < boardSize g" by (auto simp: inBoard_def bs)
      with w have "isEmpty (tiles g ! nat k) = (level (tiles g ! nat k) = None)"
        by (simp add: wellLevelled_def)
      with prepared_fields[OF prep[OF k]]
      show "isEmpty (cell gp k) = (level (cell gp k) = None)" by (simp add: cell_def)
    qed
  next
    case (2 g1 h1 c tile nextTile)
    note mc = moved_cells[OF 2(3,4,6,7,9)]
    have ic: "inBoard g1 c" using 2(4,5) by (simp add: inBoard_def)
    with 2(1) tileAt_cell[OF 2(6)] 2(9) have lt: "level tile \<noteq> None" by auto
    show ?case
    proof (intro allI impI)
      fix k assume "inBoard (moved g1 c (c + indexChange g direction) tile nextTile) k"
      then have k: "inBoard g1 k" by simp
      with 2(1) have "isEmpty (cell g1 k) = (level (cell g1 k) = None)" by blast
      with mc[OF k] lt
      show "isEmpty (cell (moved g1 c (c + indexChange g direction) tile nextTile) k) =
            (level (cell (moved g1 c (c + indexChange g direction) tile nextTile) k) = None)"
        by (auto simp: reset_def isEmpty_def)
    qed
  next
    case (3 g1 h1 c tile nextTile tile' nextTile' h2)
    note mc = merged_cells[OF 3(3,4,6,7), of _ tile' nextTile']
    have te: "\<not> isEmpty tile" using 3(9) by (simp add: ableToMerge_def isEmpty_def)
    note mw = mergeWith_Inr[OF 3(12)]
    show ?case
    proof (intro allI impI)
      fix k assume "inBoard (merged g1 c (c + indexChange g direction) tile' nextTile') k"
      then have k: "inBoard g1 k" by simp
      with 3(1) have "isEmpty (cell g1 k) = (level (cell g1 k) = None)" by blast
      with mc[OF k] mw te
      show "isEmpty (cell (merged g1 c (c + indexChange g direction) tile' nextTile') k) =
            (level (cell (merged g1 c (c + indexChange g direction) tile' nextTile') k) = None)"
        by (auto simp: reset_def isEmpty_def)
    qed
  qed simp
  then show ?thesis by (simp add: wellLevelled_cells)
qed

lemma spawnTile_wellLevelled:
  assumes run: "spawnTile g ds = Inr (g', ds')" and w: "wellLevelled g"
  shows "wellLevelled g'"
proof -
  from spawnTile_Inr[OF run] have "g' = g \<or>
      (\<exists>k l. k < boardSize g \<and> k < length (tiles g) \<and> isEmpty (tiles g ! k) \<and>
         g' = g\<lparr>tiles := (tiles g)[k := (tiles g ! k)\<lparr>level := Some l, status := Spawned\<rparr>]\<rparr>)"
    by auto
  then show ?thesis
  proof (elim disjE exE conjE)
    assume "g' = g"
    with w show ?thesis by simp
  next
    fix k l
    assume k: "k < boardSize g" "k < length (tiles g)"
      and g': "g' = g\<lparr>tiles := (tiles g)[k := (tiles g ! k)\<lparr>level := Some l, status := Spawned\<rparr>]\<rparr>"
    show ?thesis
      unfolding wellLevelled_def
    proof (intro allI impI)
      fix j assume "j < boardSize g'"
      then have j: "j < boardSize g" by (simp add: g' boardSize_def)
      with w have "isEmpty (tiles g ! j) = (level (tiles g ! j) = None)"
        by (simp add: wellLevelled_def)
      with k show "isEmpty (tiles g' ! j) = (level (tiles g' ! j) = None)"
        by (cases "j = k") (simp_all add: g' isEmpty_def)
    qed
  qed
qed

lemma GameState_new_wellLevelled:
  assumes "GameState_new r c target ds = Inr (g, ds')"
  shows "wellLevelled g"
proof -
  let ?g0 = "\<lparr>rows = r, columns = c, targetTileLevel = target,
                       tiles = map Tile_new [0..<r * c], score = 0,
                       gameStatus = InProgress\<rparr>"
  from assms obtain g1 ds1 where
    a: "spawnTile ?g0 ds = Inr (g1, ds1)" and b: "spawnTile g1 ds1 = Inr (g, ds')"
    by (auto simp: GameState_new_def bindE_Inr)
  have "wellLevelled ?g0"
    by (simp add: wellLevelled_def boardSize_def Tile_new_def isEmpty_def)
  from spawnTile_wellLevelled[OF b spawnTile_wellLevelled[OF a this]] show ?thesis .
qed

lemma reachable_wellLevelled:
  assumes "reachable g h"
  shows "wellLevelled g"
proof -
  from assms obtain r c target ds g0 ds0 h0 where
    n: "GameState_new r c target ds = Inr (g0, ds0)" and re: "reaches g0 h0 g h"
    by (auto simp: reachable_def)
  show ?thesis
  proof (rule reaches_invariant[OF re, where P = "\<lambda>g h. wellLevelled g"], goal_cases)
    case 1
    show ?case by (rule GameState_new_wellLevelled[OF n])
  next
    case (2 g1 h1 direction g2 h2)
    then show ?case by (auto intro: gravitate_wellLevelled)
  next
    case (3 g1 h1 ds g2 ds')
    then show ?case by (auto intro: spawnTile_wellLevelled)
  next
    case (4 g1 h1 ds g2 h2 ds')
    from updateStatus_tiles[OF 4(2)] have g': "g2 = g1\<lparr>gameStatus := gameStatus g2\<rparr>" by simp
    have "tiles g2 = tiles g1" "boardSize g2 = boardSize g1"
      by (subst g', simp add: boardSize_def)+
    with 4(1) show ?case by (simp add: wellLevelled_def)
  qed
qed

text \<open>The sum of the positions of the non-empty cells: every \<open>moveTo\<close> of a pass changes
  it by the step \<open>d\<close> of the pass.\<close>

definition positionSum :: "GameState \<Rightarrow> int" where
  "positionSum g =
     sum_list (map (\<lambda>k. if isEmpty (cell g (int k)) then 0 else int k) [0..<boardSize g])"

lemma positionSum_sum:
  "positionSum g = (\<Sum>k<boardSize g. if isEmpty (cell g (int k)) then 0 else int k)"
  by (simp add: positionSum_def interv_sum_list_conv_sum_set_nat atLeast0LessThan)

lemma positionSum_cong:
  assumes "boardSize g' = boardSize g"
    "\<And>k. k < boardSize g \<Longrightarrow> isEmpty (cell g' (int k)) = isEmpty (cell g (int k))"
  shows "positionSum g' = positionSum g"
  using assms by (simp add: positionSum_sum)

lemma positionSum_moved:
  assumes s: "stepOK g d c" "0 \<le> c" "c < int (boardSize g)"
    and t: "tileAt (tiles g) c = Inr tile" "tileAt (tiles g) (c + d) = Inr nextTile"
    and e: "isEmpty nextTile" "\<not> isEmpty tile"
  shows "positionSum (moved g c (c + d) tile nextTile) = positionSum g + d"
proof -
  let ?g' = "moved g c (c + d) tile nextTile"
  let ?f = "\<lambda>g k. if isEmpty (cell g (int k)) then 0 else int k"
  note mc = moved_cells[OF s(1,2) t e(2)]
  note tc = tileAt_cell[OF t(1)] tileAt_cell[OF t(2)]
  from stepOK_range[OF s(1)] have r: "0 \<le> c + d" "c + d < int (boardSize g)" "c + d \<noteq> c" by auto
  have 1: "?f ?g' k = (?f g k + (if k = nat c then - c else 0)) + (if k = nat (c + d) then c + d else 0)"
    if "k < boardSize g" for k
  proof -
    have "inBoard g (int k)" using that by (simp add: inBoard_def)
    from mc[OF this] e tc r s(2) show ?thesis
      by (auto simp: reset_def isEmpty_def)
  qed
  have "sum (?f ?g') {..<boardSize g} =
        sum (\<lambda>k. ?f g k + (if k = nat c then - c else 0)) {..<boardSize g} + (c + d)"
    by (rule sum_bump[of "nat (c + d)"]) (use r 1 in auto)
  also have "sum (\<lambda>k. ?f g k + (if k = nat c then - c else 0)) {..<boardSize g} =
        sum (?f g) {..<boardSize g} + (- c)"
    by (rule sum_bump[of "nat c"]) (use s in auto)
  finally show ?thesis by (simp add: positionSum_sum)
qed

text \<open>
  \<open>idle gp hp d s0 g h\<close>: since the prepared board \<open>gp\<close> with the store \<open>hp\<close>, either the
  score has grown beyond \<open>s0\<close>, or nothing has happened, or some tiles have moved and none
  has merged.
\<close>

definition idle :: "GameState \<Rightarrow> heap \<Rightarrow> int \<Rightarrow> int \<Rightarrow> GameState \<Rightarrow> heap \<Rightarrow> bool" where
  "idle gp hp d s0 g h =
     (s0 < score g \<or>
      (score g = s0 \<and>
       ((g = gp \<and> h = hp) \<or>
        (d \<noteq> 0 \<and> (\<exists>m. 0 < m \<and> positionSum g = positionSum gp + int m * d)))))"

lemma idle_moved:
  assumes u: "idle gp hp d s0 g h" and s: "stepOK g d c" "0 \<le> c" "c < int (boardSize g)"
    and t: "tileAt (tiles g) c = Inr tile" "tileAt (tiles g) (c + d) = Inr nextTile"
    and e: "isEmpty nextTile" "\<not> isEmpty tile"
  shows "idle gp hp d s0 (moved g c (c + d) tile nextTile) h"
proof -
  note ps = positionSum_moved[OF s t e]
  from stepOK_range[OF s(1)] have d: "d \<noteq> 0" by simp
  from u consider "s0 < score g" | "score g = s0" "g = gp"
    | m where "score g = s0" "0 < m" "positionSum g = positionSum gp + int m * d"
    by (auto simp: idle_def)
  then show ?thesis
  proof cases
    case 1
    then show ?thesis by (simp add: idle_def)
  next
    case 2
    with ps have "positionSum (moved g c (c + d) tile nextTile) = positionSum gp + int 1 * d"
      by simp
    with 2 d show ?thesis unfolding idle_def
      by (intro disjI2 conjI exI[of _ 1]) simp_all
  next
    case 3
    with ps have "positionSum (moved g c (c + d) tile nextTile) = positionSum gp + int (Suc m) * d"
      by (simp add: algebra_simps)
    with 3 d show ?thesis unfolding idle_def
      by (intro disjI2 conjI exI[of _ "Suc m"]) simp_all
  qed
qed

lemma idle_merged:
  assumes u: "idle gp hp d s0 g h" and e: "ableToMerge tile"
    and m: "mergeWith tile nextTile h = Inr (tile', nextTile', h')"
  shows "idle gp hp d s0 (merged g c (c + d) tile' nextTile') h'"
proof -
  have te: "\<not> isEmpty tile" using e by (simp add: ableToMerge_def isEmpty_def)
  with mergeWith_Inr[OF m] have "status nextTile' = Merged" by simp
  then have "(0::int) < (case scoreValue nextTile' of None \<Rightarrow> 0 | Some v \<Rightarrow> v)"
    by (simp add: scoreValue_def isEmpty_def)
  then have "score g < score (merged g c (c + d) tile' nextTile')" by (simp add: merged_def)
  with u show ?thesis by (auto simp: idle_def)
qed

lemma gravitate_idle:
  assumes run: "gravitate direction (g, h) = Inr (g', h')"
    and sc: "score g' = score g"
    and em: "\<And>k. k < boardSize g \<Longrightarrow> isEmpty (tiles g' ! k) = isEmpty (tiles g ! k)"
  shows "forE [0..<boardSize g] prepareTile (g, h) = Inr (g', h')"
proof -
  let ?d = "indexChange g direction"
  let ?n = "boardSize g"
  from run obtain gp hp where
    a: "forE [0..<?n] prepareTile (g, h) = Inr (gp, hp)" and
    b: "forE [0..<?n] (\<lambda>i. gravitateTile (int i) ?d) (gp, hp) = Inr (g', h')"
    by (auto simp: gravitate_def bindE_Inr)
  from prepare_pass[OF a] have n: "?n \<le> length (tiles g)" and fr: "sameFrame g gp"
    and sp: "score gp = score g"
    and nm: "\<And>k. inBoard g k \<Longrightarrow> status (cell gp k) \<noteq> Merged"
    by simp_all
  from prepare_loop[OF a] have
    prep: "\<And>k. k < ?n \<Longrightarrow> prepared h hp (tiles g ! k) (tiles gp ! k)"
    by (simp add: preparedUpTo_def)
  note dm = sameFrame_dims[OF fr]
  have bs: "boardSize gp = ?n" using dm by simp
  have ms: "mergedSettled gp ?d"
    unfolding mergedSettled_def using nm by (auto simp: inBoard_def bs)
  have init: "idle gp hp ?d (score g) gp hp" using sp by (simp add: idle_def)
  have A: "idle gp hp ?d (score g) g' h' \<and> mergedSettled g' ?d \<and> sameFrame gp g' \<and>
           score gp \<le> score g'"
  proof (rule slide_invariant[OF b _ _ ms, where P = "idle gp hp ?d (score g)", OF _ _ init],
      goal_cases)
    case 1
    show ?case using bs by simp
  next
    case 2
    show ?case using n dm by simp
  next
    case (3 g1 h1 c tile nextTile)
    from idle_moved[OF 3(1,3,4,5,6,7,8,9)] show ?case .
  next
    case (4 g1 h1 c tile nextTile tile' nextTile' h2)
    from idle_merged[OF 4(1,9,12)] show ?case .
  qed
  then have i: "idle gp hp ?d (score g) g' h'" and f2: "sameFrame gp g'" by simp_all
  have bs': "boardSize g' = ?n" using sameFrame_dims[OF f2] bs by simp
  have "positionSum g' = positionSum gp"
  proof (rule positionSum_cong)
    show "boardSize g' = boardSize gp" using bs bs' by simp
  next
    fix k assume "k < boardSize gp"
    then have k: "k < ?n" using bs by simp
    from em[OF k] prepared_fields[OF prep[OF k]]
    show "isEmpty (cell g' (int k)) = isEmpty (cell gp (int k))" by (simp add: cell_def)
  qed
  with i sc have "g' = gp \<and> h' = hp" by (auto simp: idle_def)
  with a show ?thesis by simp
qed

lemma move_False_prepares:
  assumes run: "move direction g h ds = Inr (False, g', h', ds')" and w: "wellLevelled g"
  shows "heapExt h h' \<and> (\<forall>i < boardSize g. prepared h h' (tiles g ! i) (tiles g' ! i)) \<and>
         (\<forall>i. boardSize g \<le> i \<and> i < length (tiles g) \<longrightarrow> tiles g' ! i = tiles g ! i)"
proof -
  from move_False[OF run] have b: "gravitate direction (g, h) = Inr (g', h')" by blast
  note keep = move_False_keeps[OF run]
  from gravitate_wellLevelled[OF b w] have w': "wellLevelled g'" .
  have bs: "boardSize g' = boardSize g" using keep by (simp add: boardSize_def)
  have em: "isEmpty (tiles g' ! k) = isEmpty (tiles g ! k)" if "k < boardSize g" for k
    using that w w' keep bs by (simp add: wellLevelled_def)
  from keep have "score g' = score g" by simp
  from gravitate_idle[OF b this em] have a: "forE [0..<boardSize g] prepareTile (g, h) = Inr (g', h')" .
  from prepare_loop[OF a] gravitate_heapExt[OF b] show ?thesis
    by (simp add: preparedUpTo_def)
qed

section \<open>Properties\<close>

text \<open>
  C10. Calling \<open>mergeWith\<close> or \<open>moveTo\<close> on a source tile whose status is Empty changes
  neither the source nor the target (nor the store of history arrays): the
  precondition "self is not empty" is a guard of the code.
\<close>

theorem empty_source_is_noop:
  "isEmpty t \<Longrightarrow> mergeWith t u h = Inr (t, u, h) \<and> moveTo t u = (t, u)"
  by (simp add: mergeWith_def moveTo_def)

theorem empty_source_is_noop_witness:
  "isEmpty (Tile_new 0) \<and>
   mergeWith (Tile_new 0) \<lparr>index = 1, level = Some 1, prevIndex = Some 0, prevLevel = Some 1, status = Still\<rparr> [[Some 1], [Some 1]]
     = Inr (Tile_new 0, \<lparr>index = 1, level = Some 1, prevIndex = Some 0, prevLevel = Some 1, status = Still\<rparr>, [[Some 1], [Some 1]]) \<and>
   moveTo (Tile_new 0) \<lparr>index = 1, level = Some 1, prevIndex = Some 0, prevLevel = Some 1, status = Still\<rparr>
     = (Tile_new 0, \<lparr>index = 1, level = Some 1, prevIndex = Some 0, prevLevel = Some 1, status = Still\<rparr>)"
proof -
  have e: "isEmpty (Tile_new 0)" by (simp add: isEmpty_def Tile_new_def)
  show ?thesis using e empty_source_is_noop [OF e] by simp
qed


text \<open>
  C4 (as stated, refuted). The claim: when \<open>move\<close> returns false, every field of every
  tile is as before the call. On a board of one cell with a spawned tile, \<open>move(Left)\<close>
  returns false, yet the tile's status has become Still and its history arrays are no
  longer \<open>null\<close>: \<open>gravitate\<close> calls \<open>prepareForMove\<close> on every tile before it slides any.
\<close>

theorem move_unchanged_counterexample:
  "move Left oneCellBoard [] [0, 0] = Inr (False, oneCellBoard_prepared, [[Some 0], [Some 1]], []) \<and>
   status (tiles oneCellBoard_prepared ! 0) \<noteq> status (tiles oneCellBoard ! 0) \<and>
   prevIndex (tiles oneCellBoard_prepared ! 0) \<noteq> prevIndex (tiles oneCellBoard ! 0) \<and>
   prevLevel (tiles oneCellBoard_prepared ! 0) \<noteq> prevLevel (tiles oneCellBoard ! 0)"
  unfolding oneCellBoard_def oneCellBoard_prepared_def by code_simp

text \<open>
  C4 (amended). When \<open>move(direction)\<close> returns false, the board's dimensions, target
  level, score and status, the number of tiles, and the index and level of every tile
  of the board are what they were before the call. If moreover every tile of the board
  is empty exactly when its level is \<open>null\<close>, as on every reachable board, then the call
  has done nothing but \<open>prepareForMove\<close> on every tile: every empty tile is what it was,
  in every field; every non-empty tile differs from what it was only in its status,
  now Still, and in \<open>prevIndex\<close> and \<open>prevLevel\<close>, now two new arrays holding its index and
  its level; and no array that existed before the call has been written.
\<close>

theorem move_unchanged_only_prepares:
  assumes "move direction g h ds = Inr (False, g', h', ds')"
  shows "rows g' = rows g \<and> columns g' = columns g \<and>
         targetTileLevel g' = targetTileLevel g \<and> score g' = score g \<and>
         gameStatus g' = gameStatus g \<and> length (tiles g') = length (tiles g) \<and>
         (\<forall>i < boardSize g.
            index (tiles g' ! i) = index (tiles g ! i) \<and> level (tiles g' ! i) = level (tiles g ! i)) \<and>
         (wellLevelled g \<longrightarrow>
            heapExt h h' \<and>
            (\<forall>i < boardSize g.
               if isEmpty (tiles g ! i) then tiles g' ! i = tiles g ! i
               else \<exists>ri rl.
                      tiles g' ! i =
                        (tiles g ! i)\<lparr>prevIndex := Some ri, prevLevel := Some rl, status := Still\<rparr> \<and>
                      length h \<le> ri \<and> ri < length h' \<and> length h \<le> rl \<and> rl < length h' \<and>
                      ri \<noteq> rl \<and> arr h' ri = [Some (index (tiles g ! i))] \<and>
                      arr h' rl = [level (tiles g ! i)]) \<and>
            (\<forall>i. boardSize g \<le> i \<and> i < length (tiles g) \<longrightarrow> tiles g' ! i = tiles g ! i)) \<and>
         (reachable g h \<longrightarrow> wellLevelled g)"
proof -
  note keep = move_False_keeps[OF assms]
  have "heapExt h h' \<and>
        (\<forall>i < boardSize g.
           if isEmpty (tiles g ! i) then tiles g' ! i = tiles g ! i
           else \<exists>ri rl.
                  tiles g' ! i =
                    (tiles g ! i)\<lparr>prevIndex := Some ri, prevLevel := Some rl, status := Still\<rparr> \<and>
                  length h \<le> ri \<and> ri < length h' \<and> length h \<le> rl \<and> rl < length h' \<and>
                  ri \<noteq> rl \<and> arr h' ri = [Some (index (tiles g ! i))] \<and>
                  arr h' rl = [level (tiles g ! i)]) \<and>
        (\<forall>i. boardSize g \<le> i \<and> i < length (tiles g) \<longrightarrow> tiles g' ! i = tiles g ! i)"
    if "wellLevelled g"
    using move_False_prepares[OF assms that] unfolding prepared_def by simp
  moreover have "wellLevelled g" if "reachable g h"
    using that by (rule reachable_wellLevelled)
  ultimately show ?thesis using keep by blast
qed

theorem move_unchanged_only_prepares_witness:
  "move Left rowBoard_moved rowStore [0, 0, 1, 0] = Inr (False, rowBoard_still, rowStore_still, []) \<and>
   reachable rowBoard_moved rowStore \<and> wellLevelled rowBoard_moved \<and>
   heapExt rowStore rowStore_still \<and>
   score rowBoard_still = score rowBoard_moved \<and>
   isEmpty (tiles rowBoard_moved ! 2) \<and> tiles rowBoard_still ! 2 = tiles rowBoard_moved ! 2 \<and>
   \<not> isEmpty (tiles rowBoard_moved ! 0) \<and>
   tiles rowBoard_still ! 0 =
     (tiles rowBoard_moved ! 0)\<lparr>prevIndex := Some 4, prevLevel := Some 5, status := Still\<rparr> \<and>
   arr rowStore_still 4 = [Some 0] \<and> arr rowStore_still 5 = [Some 2]"
proof -
  have m: "move Left rowBoard_moved rowStore [0, 0, 1, 0] =
     Inr (False, rowBoard_still, rowStore_still, [])"
    unfolding rowBoard_moved_def rowBoard_still_def rowStore_still_def rowStore_def by code_simp
  have "reaches rowBoard [] rowBoard_moved rowStore"
    by (rule reaches.by_move[OF reaches.start rowBoard_move])
  then have r: "reachable rowBoard_moved rowStore"
    unfolding reachable_def using rowBoard_new by blast
  have f: "isEmpty (tiles rowBoard_moved ! 2)" "\<not> isEmpty (tiles rowBoard_moved ! 0)"
    "tiles rowBoard_still ! 0 =
       (tiles rowBoard_moved ! 0)\<lparr>prevIndex := Some 4, prevLevel := Some 5, status := Still\<rparr>"
    "arr rowStore_still 4 = [Some 0]" "arr rowStore_still 5 = [Some 2]"
    "(2::nat) < boardSize rowBoard_moved"
    by (simp_all add: rowBoard_moved_def rowBoard_still_def rowStore_still_def rowStore_def
        isEmpty_def Tile_new_def arr_def boardSize_def)
  from move_unchanged_only_prepares[OF m] r have
    w: "wellLevelled rowBoard_moved" and k: "score rowBoard_still = score rowBoard_moved" by simp_all
  with move_unchanged_only_prepares[OF m] have e: "heapExt rowStore rowStore_still"
    and t: "\<forall>i < boardSize rowBoard_moved.
               if isEmpty (tiles rowBoard_moved ! i)
               then tiles rowBoard_still ! i = tiles rowBoard_moved ! i
               else \<exists>ri rl.
                      tiles rowBoard_still ! i =
                        (tiles rowBoard_moved ! i)\<lparr>prevIndex := Some ri, prevLevel := Some rl, status := Still\<rparr> \<and>
                      length rowStore \<le> ri \<and> ri < length rowStore_still \<and> length rowStore \<le> rl \<and>
                      rl < length rowStore_still \<and>
                      ri \<noteq> rl \<and> arr rowStore_still ri = [Some (index (tiles rowBoard_moved ! i))] \<and>
                      arr rowStore_still rl = [level (tiles rowBoard_moved ! i)]"
    by simp_all
  from t f(1,6) have "tiles rowBoard_still ! 2 = tiles rowBoard_moved ! 2" by auto
  with m r w e k f show ?thesis by simp
qed

text \<open>
  C6. The transitions of \<open>updateStatus\<close>: Lost whenever \<open>isGameOver\<close> holds; otherwise
  InProgress becomes Won when some tile's level is at least \<open>targetTileLevel\<close>, Won
  becomes Continued, and every other status stays. So Continued is only reached from Won
  (or kept), and no status returns to InProgress. A \<open>move\<close> that changes the board
  runs \<open>updateStatus\<close> once, so a Won board is Continued (or Lost) after it; a \<open>move\<close>
  that changes nothing leaves the status.
\<close>

theorem status_transitions:
  "(updateStatus g h ds = Inr (g', h', ds') \<longrightarrow>
      (\<exists>dead. isGameOver g h ds = Inr (dead, h', ds') \<and>
         g' = g\<lparr>gameStatus := gameStatus g'\<rparr> \<and>
         gameStatus g' =
           (if dead then Lost
            else if gameStatus g = InProgress \<and> someTileReachedTarget g then Won
            else if gameStatus g = Won then Continued
            else gameStatus g)) \<and>
      (gameStatus g' = Continued \<longrightarrow> gameStatus g = Won \<or> gameStatus g = Continued) \<and>
      (gameStatus g \<noteq> InProgress \<longrightarrow> gameStatus g' \<noteq> InProgress)) \<and>
   (move direction b hb db = Inr (changed, b', hb', db') \<longrightarrow>
      (\<not> changed \<longrightarrow> gameStatus b' = gameStatus b) \<and>
      (changed \<and> gameStatus b = Won \<longrightarrow> gameStatus b' = Continued \<or> gameStatus b' = Lost) \<and>
      (gameStatus b' = Continued \<longrightarrow> gameStatus b = Won \<or> gameStatus b = Continued) \<and>
      (gameStatus b \<noteq> InProgress \<longrightarrow> gameStatus b' \<noteq> InProgress))"
proof -
  have U: "(\<exists>dead. isGameOver g h ds = Inr (dead, h', ds') \<and>
         g' = g\<lparr>gameStatus := gameStatus g'\<rparr> \<and>
         gameStatus g' =
           (if dead then Lost
            else if gameStatus g = InProgress \<and> someTileReachedTarget g then Won
            else if gameStatus g = Won then Continued
            else gameStatus g)) \<and>
      (gameStatus g' = Continued \<longrightarrow> gameStatus g = Won \<or> gameStatus g = Continued) \<and>
      (gameStatus g \<noteq> InProgress \<longrightarrow> gameStatus g' \<noteq> InProgress)"
    if u: "updateStatus g h ds = Inr (g', h', ds')"
    using updateStatus_Inr[OF u] by (auto split: if_splits)
  have M: "(\<not> changed \<longrightarrow> gameStatus b' = gameStatus b) \<and>
      (changed \<and> gameStatus b = Won \<longrightarrow> gameStatus b' = Continued \<or> gameStatus b' = Lost) \<and>
      (gameStatus b' = Continued \<longrightarrow> gameStatus b = Won \<or> gameStatus b = Continued) \<and>
      (gameStatus b \<noteq> InProgress \<longrightarrow> gameStatus b' \<noteq> InProgress)"
    if m: "move direction b hb db = Inr (changed, b', hb', db')"
  proof (cases changed)
    case False
    then have "gameStatus b' = gameStatus b"
      using move_False_keeps[of direction b hb db b' hb' db'] m by simp
    with False show ?thesis by simp
  next
    case True
    with m have "move direction b hb db = Inr (True, b', hb', db')" by simp
    from move_True[OF this] obtain oldState ds1 g1 h1 g2 ds2 where
      gr: "gravitate direction (b, hb) = Inr (g1, h1)" and
      sp: "spawnTile g1 ds1 = Inr (g2, ds2)" and
      us: "updateStatus g2 h1 ds2 = Inr (b', hb', db')" by blast
    from gravitate_frame[OF gr] spawnTile_frame[OF sp]
    have "gameStatus g2 = gameStatus b" by (simp add: sameFrame_def)
    with updateStatus_Inr[OF us] True show ?thesis by (auto split: if_splits)
  qed
  from U M show ?thesis by blast
qed

theorem status_transitions_witness:
  "updateStatus wonBoard [[Some 0, Some 1], [Some 10, Some 10]] [] =
     Inr (wonBoard\<lparr>gameStatus := Won\<rparr>, [[Some 0, Some 1], [Some 10, Some 10]], []) \<and>
   move Left threeCellBoard [] [0, 0, 1, 0, 1, 0] =
     Inr (True, threeCellBoard_moved, [[Some 2], [Some 1]], []) \<and>
   (\<exists>dead. isGameOver wonBoard [[Some 0, Some 1], [Some 10, Some 10]] [] =
             Inr (dead, [[Some 0, Some 1], [Some 10, Some 10]], []) \<and>
           Won = (if dead then Lost
                  else if gameStatus wonBoard = InProgress \<and> someTileReachedTarget wonBoard then Won
                  else if gameStatus wonBoard = Won then Continued
                  else gameStatus wonBoard)) \<and>
   gameStatus threeCellBoard = Won \<and> gameStatus threeCellBoard_moved = Continued"
proof -
  have u: "updateStatus wonBoard [[Some 0, Some 1], [Some 10, Some 10]] [] =
     Inr (wonBoard\<lparr>gameStatus := Won\<rparr>, [[Some 0, Some 1], [Some 10, Some 10]], [])"
    unfolding wonBoard_def by code_simp
  have m: "move Left threeCellBoard [] [0, 0, 1, 0, 1, 0] =
     Inr (True, threeCellBoard_moved, [[Some 2], [Some 1]], [])"
    unfolding threeCellBoard_def threeCellBoard_moved_def by code_simp
  have s: "gameStatus threeCellBoard = Won" "gameStatus threeCellBoard_moved = Continued"
    by (simp_all add: threeCellBoard_def threeCellBoard_moved_def)
  from status_transitions [of wonBoard "[[Some 0, Some 1], [Some 10, Some 10]]" "[]"
      "wonBoard\<lparr>gameStatus := Won\<rparr>" "[[Some 0, Some 1], [Some 10, Some 10]]" "[]"
      Left threeCellBoard "[]" "[0, 0, 1, 0, 1, 0]" True threeCellBoard_moved "[[Some 2], [Some 1]]" "[]"]
    u m s
  show ?thesis by simp
qed

text \<open>
  C9. The animation player. (1) Once a snapshot has been added, the queue is never empty,
  and the progress stays within [0, 1] as long as no clock reading lies before the
  previous one. (2) A frame keeps the queue non-empty; it changes the queue only by
  retiring the head, and it lowers the progress only when it retires the head; both
  happen only when the progress was 1 and more than one snapshot was queued. (3) With
  more than one snapshot queued and every frame at least a millisecond after the
  previous one, the progress reaches 1 and the next frame retires the head, within
  \<open>n + 1\<close> frames, where \<open>n\<close> is any number of at least \<open>100 * (1 - progress)\<close>: 101 frames
  always suffice.
\<close>

theorem animation_player:
  "(play es (GameAnimationController_new t0, ds) = Inr (a, ds') \<and> elapsedOK t0 es \<and>
      (\<exists>g. AddState g \<in> set es) \<longrightarrow>
      stateHistory a \<noteq> [] \<and> 0 \<le> animationProgress a \<and> animationProgress a \<le> 1) \<and>
   (stateHistory b \<noteq> [] \<and> animationProgress b \<le> 1 \<and> prevTime b \<le> time \<longrightarrow>
      stateHistory (advance b time now) \<noteq> [] \<and>
      (stateHistory (advance b time now) = stateHistory b \<or>
         stateHistory (advance b time now) = tl (stateHistory b) \<and>
         animationProgress b = 1 \<and> 1 < length (stateHistory b)) \<and>
      (animationProgress (advance b time now) < animationProgress b \<longrightarrow>
         stateHistory (advance b time now) = tl (stateHistory b) \<and>
         animationProgress b = 1 \<and> 1 < length (stateHistory b))) \<and>
   (1 < length (stateHistory c) \<and> 0 \<le> animationProgress c \<and> animationProgress c \<le> 1 \<and>
      (1 - animationProgress c) * 100 \<le> real n \<and>
      elapsedPositive (prevTime c) ts \<and> n < length ts \<longrightarrow>
      (\<exists>k \<le> n. animationProgress (advances (take k ts) c) = 1 \<and>
              stateHistory (advances (take k ts) c) = stateHistory c \<and>
              stateHistory (advances (take (Suc k) ts) c) = tl (stateHistory c)))"
proof (intro conjI impI)
  assume p: "play es (GameAnimationController_new t0, ds) = Inr (a, ds') \<and> elapsedOK t0 es \<and>
      (\<exists>g. AddState g \<in> set es)"
  from play_nonempty[of es "GameAnimationController_new t0" ds a ds'] p
  show "stateHistory a \<noteq> []" by blast
  from play_range[of es "GameAnimationController_new t0" ds a ds'] p
  show "0 \<le> animationProgress a" "animationProgress a \<le> 1"
    by (simp_all add: GameAnimationController_new_def)
next
  assume q: "stateHistory b \<noteq> [] \<and> animationProgress b \<le> 1 \<and> prevTime b \<le> time"
  then have l: "length (stateHistory b) \<noteq> 1 \<Longrightarrow> 1 < length (stateHistory b)"
    by (cases "stateHistory b") auto
  show "stateHistory (advance b time now) \<noteq> []" using q by (simp add: advance_nonempty)
  show "stateHistory (advance b time now) = stateHistory b \<or>
         stateHistory (advance b time now) = tl (stateHistory b) \<and>
         animationProgress b = 1 \<and> 1 < length (stateHistory b)"
    using l by (auto simp: advance_history)
  assume "animationProgress (advance b time now) < animationProgress b"
  from advance_drop[OF this] q l
  show "stateHistory (advance b time now) = tl (stateHistory b)" "animationProgress b = 1"
    "1 < length (stateHistory b)"
    by (auto simp: advance_history)
next
  assume r: "1 < length (stateHistory c) \<and> 0 \<le> animationProgress c \<and> animationProgress c \<le> 1 \<and>
      (1 - animationProgress c) * 100 \<le> real n \<and>
      elapsedPositive (prevTime c) ts \<and> n < length ts"
  then show "\<exists>k \<le> n. animationProgress (advances (take k ts) c) = 1 \<and>
              stateHistory (advances (take k ts) c) = stateHistory c \<and>
              stateHistory (advances (take (Suc k) ts) c) = tl (stateHistory c)"
    using retire_within[of c n ts] by simp
qed

theorem animation_player_witness:
  "play [AddState oneCellBoard, Advance 10 11] (GameAnimationController_new 0, [0, 0]) =
     Inr (\<lparr>animationProgress = 1 / 20, stateHistory = [oneCellBoard], prevTime = 11\<rparr>, []) \<and>
   elapsedOK 0 [AddState oneCellBoard, Advance 10 11] \<and>
   AddState oneCellBoard \<in> set [AddState oneCellBoard, Advance 10 11] \<and>
   stateHistory \<lparr>animationProgress = 1 / 20, stateHistory = [oneCellBoard], prevTime = 11\<rparr> \<noteq> [] \<and>
   stateHistory (twoSnapshots\<lparr>animationProgress := 1\<rparr>) \<noteq> [] \<and>
   animationProgress (advance (twoSnapshots\<lparr>animationProgress := 1\<rparr>) 5 6)
     < animationProgress (twoSnapshots\<lparr>animationProgress := 1\<rparr>) \<and>
   stateHistory (advance (twoSnapshots\<lparr>animationProgress := 1\<rparr>) 5 6) = [oneCellBoard_prepared] \<and>
   1 < length (stateHistory twoSnapshots) \<and>
   elapsedPositive (prevTime twoSnapshots) [(1, 1), (2, 3)] \<and>
   (\<exists>k \<le> 1. animationProgress (advances (take k [(1, 1), (2, 3)]) twoSnapshots) = 1 \<and>
      stateHistory (advances (take (Suc k) [(1, 1), (2, 3)]) twoSnapshots) = [oneCellBoard_prepared])"
proof -
  have p: "play [AddState oneCellBoard, Advance 10 11] (GameAnimationController_new 0, [0, 0]) =
     Inr (\<lparr>animationProgress = 1 / 20, stateHistory = [oneCellBoard], prevTime = 11\<rparr>, [])"
    unfolding oneCellBoard_def by code_simp
  have q: "animationProgress (advance (twoSnapshots\<lparr>animationProgress := 1\<rparr>) 5 6)
     < animationProgress (twoSnapshots\<lparr>animationProgress := 1\<rparr>)"
    by (simp add: advance_progress twoSnapshots_def animationStep_def)
  have r: "(1 - animationProgress twoSnapshots) * 100 \<le> real 1"
    "elapsedPositive (prevTime twoSnapshots) [(1, 1), (2, 3)]"
    "1 < length (stateHistory twoSnapshots)" "0 \<le> animationProgress twoSnapshots"
    "animationProgress twoSnapshots \<le> 1"
    by (simp_all add: twoSnapshots_def)
  have t: "tl (stateHistory twoSnapshots) = [oneCellBoard_prepared]"
    "stateHistory (twoSnapshots\<lparr>animationProgress := 1\<rparr>) = [oneCellBoard, oneCellBoard_prepared]"
    "prevTime (twoSnapshots\<lparr>animationProgress := 1\<rparr>) = 0"
    by (simp_all add: twoSnapshots_def)
  from animation_player [where es = "[AddState oneCellBoard, Advance 10 11]" and ?t0.0 = 0
      and ds = "[0, 0]"
      and a = "\<lparr>animationProgress = 1 / 20, stateHistory = [oneCellBoard], prevTime = 11\<rparr>"
      and ds' = "[]" and b = "twoSnapshots\<lparr>animationProgress := 1\<rparr>" and time = 5 and now = 6
      and c = twoSnapshots and n = 1 and ts = "[(1, 1), (2, 3)]"] p q r t
  show ?thesis by auto
qed

text \<open>
  C1 (as stated, refuted). The claim: after \<open>move(Left)\<close> on the two-tile board, index 1 is
  empty for every outcome of the random draws. When the spawn draw is 1, the new tile
  lands on index 1, the cell the merge has just emptied.
\<close>

theorem two_tiles_move_left_counterexample:
  "move Left (twoTiles Spawned None None Spawned None None 0) [] [3, 0, 5, 0, 1, 0] =
     Inr (True, twoTiles_spawned 0 0 1 1, [[Some 0, Some 1], [Some 1, Some 1], [Some 1], [Some 1]], []) \<and>
   \<not> isEmpty (tiles (twoTiles_spawned 0 0 1 1) ! 1)"
  unfolding twoTiles_def twoTiles_spawned_def twoTiles_merged_def by code_simp

text \<open>
  C1 (amended). On the two-tile board with status InProgress, whatever the draws,
  \<open>move(Left)\<close> either runs out of draws or returns true, and then: index 0 holds a tile
  of level 2 with status Merged, the score has grown by 4, the status is InProgress, and
  exactly one tile of level 1 or 2 has spawned at an index \<open>k\<close> from 1 to 15 (index 1
  included), every other index from 1 to 15 being empty. It does return true when no
  draw is rejected: two index draws for the clone's own two tiles that differ, and a
  spawn draw that is not 0.
\<close>

theorem two_tiles_move_left:
  assumes "st0 \<noteq> Empty" "st1 \<noteq> Empty"
  shows "(case move Left (twoTiles st0 p0 q0 st1 p1 q1 s) h ds of
            Inl e \<Rightarrow> e = DrawsExhausted
          | Inr (changed, g', h', ds') \<Rightarrow>
              changed \<and> score g' = s + 4 \<and> gameStatus g' = InProgress \<and>
              length (tiles g') = 16 \<and>
              tiles g' ! 0 = \<lparr>index = 0, level = Some 2, prevIndex = Some (length h),
                               prevLevel = Some (length h + 1), status = Merged\<rparr> \<and>
              (\<exists>k l. 1 \<le> k \<and> k < 16 \<and> (l = 1 \<or> l = 2) \<and>
                 g' = twoTiles_spawned (length h) s k l \<and>
                 tiles g' ! k = \<lparr>index = k, level = Some l, prevIndex = None,
                                  prevLevel = None, status = Spawned\<rparr> \<and>
                 (\<forall>j < 16. 1 \<le> j \<and> j \<noteq> k \<longrightarrow> tiles g' ! j = Tile_new j))) \<and>
         (min 15 i1 \<noteq> min 15 i2 \<and> 1 \<le> min 15 k' \<longrightarrow>
            move Left (twoTiles st0 p0 q0 st1 p1 q1 s) h (i1 # l1 # i2 # l2 # k' # l' # rest) =
              Inr (True, twoTiles_spawned (length h) s (min 15 k') (if 9 \<le> l' then 2 else 1),
                   h @ [[Some 0, Some 1], [Some 1, Some 1], [Some 1], [Some 1]], rest))"
proof -
  have sp: "score (twoTiles_spawned n s k l) = s + 4 \<and>
        gameStatus (twoTiles_spawned n s k l) = InProgress \<and>
        length (tiles (twoTiles_spawned n s k l)) = 16 \<and>
        tiles (twoTiles_spawned n s k l) ! 0 =
          \<lparr>index = 0, level = Some 2, prevIndex = Some n, prevLevel = Some (n + 1), status = Merged\<rparr> \<and>
        tiles (twoTiles_spawned n s k l) ! k =
          \<lparr>index = k, level = Some l, prevIndex = None, prevLevel = None, status = Spawned\<rparr> \<and>
        (\<forall>j < 16. 1 \<le> j \<and> j \<noteq> k \<longrightarrow> tiles (twoTiles_spawned n s k l) ! j = Tile_new j)"
    if "1 \<le> k" "k < 16" for n k l
  proof -
    have "tiles (twoTiles_merged n s) ! 0 =
          \<lparr>index = 0, level = Some 2, prevIndex = Some n, prevLevel = Some (n + 1), status = Merged\<rparr>"
      by (simp add: twoTiles_merged_def del: upt_Suc)
    with that show ?thesis
      by (simp add: twoTiles_spawned_def twoTiles_merged_fields twoTiles_merged_nth Tile_new_def)
  qed
  have A: "case move Left (twoTiles st0 p0 q0 st1 p1 q1 s) h ds of
            Inl e \<Rightarrow> e = DrawsExhausted
          | Inr (changed, g', h', ds') \<Rightarrow>
              changed \<and> score g' = s + 4 \<and> gameStatus g' = InProgress \<and>
              length (tiles g') = 16 \<and>
              tiles g' ! 0 = \<lparr>index = 0, level = Some 2, prevIndex = Some (length h),
                               prevLevel = Some (length h + 1), status = Merged\<rparr> \<and>
              (\<exists>k l. 1 \<le> k \<and> k < 16 \<and> (l = 1 \<or> l = 2) \<and>
                 g' = twoTiles_spawned (length h) s k l \<and>
                 tiles g' ! k = \<lparr>index = k, level = Some l, prevIndex = None,
                                  prevLevel = None, status = Spawned\<rparr> \<and>
                 (\<forall>j < 16. 1 \<le> j \<and> j \<noteq> k \<longrightarrow> tiles g' ! j = Tile_new j))"
    using twoTiles_move[OF assms, where ?p0.0 = p0 and ?q0.0 = q0 and ?p1.0 = p1 and ?q1.0 = q1
        and s = s and h = h and ds = ds] sp
    by (auto split: sum.splits)
  from A twoTiles_move_hit[OF assms] show ?thesis by blast
qed

theorem two_tiles_move_left_witness:
  "Spawned \<noteq> Empty \<and> min 15 3 \<noteq> (min 15 5 :: nat) \<and> 1 \<le> (min 15 2 :: nat) \<and>
   move Left (twoTiles Spawned None None Spawned None None 0) [] [3, 0, 5, 0, 2, 9] =
     Inr (True, twoTiles_spawned 0 0 2 2, [[Some 0, Some 1], [Some 1, Some 1], [Some 1], [Some 1]], []) \<and>
   score (twoTiles_spawned 0 0 2 2) = 4 \<and>
   status (tiles (twoTiles_spawned 0 0 2 2) ! 0) = Merged \<and>
   level (tiles (twoTiles_spawned 0 0 2 2) ! 0) = Some 2 \<and>
   isEmpty (tiles (twoTiles_spawned 0 0 2 2) ! 1)"
proof -
  have n: "Spawned \<noteq> Empty" by simp
  have m: "min 15 3 \<noteq> (min 15 5 :: nat) \<and> 1 \<le> (min 15 2 :: nat)" by simp
  have f: "score (twoTiles_spawned 0 0 2 2) = 4 \<and>
     status (tiles (twoTiles_spawned 0 0 2 2) ! 0) = Merged \<and>
     level (tiles (twoTiles_spawned 0 0 2 2) ! 0) = Some 2 \<and>
     isEmpty (tiles (twoTiles_spawned 0 0 2 2) ! 1)"
    unfolding twoTiles_spawned_def twoTiles_merged_def by code_simp
  from two_tiles_move_left [OF n n, where ?p0.0 = None and ?q0.0 = None and ?p1.0 = None
      and ?q1.0 = None and s = 0 and h = "[]" and ds = "[]" and ?i1.0 = 3 and ?i2.0 = 5
      and k' = 2 and ?l1.0 = 0 and ?l2.0 = 0 and l' = 9 and rest = "[]"] m f
  show ?thesis by simp
qed

text \<open>
  C2. After \<open>gravitate\<close>, every non-empty tile of the board has history arrays of equal
  length, at most 2. A tile with status Merged has exactly two entries: the indices of two
  non-empty tiles of the board before the pass, both of one level \<open>l\<close>, and its own level is
  \<open>l + 1\<close>: it has absorbed one tile, once. Every other non-empty tile has exactly one
  entry, the index of a non-empty tile of the board before the pass, whose level it has.
\<close>

theorem no_double_merge:
  assumes "gravitate direction (g, h) = Inr (g', h')"
    and "k < boardSize g" and "\<not> isEmpty (tiles g' ! k)"
  shows "length (histI h' (tiles g' ! k)) \<le> 2 \<and>
         length (histL h' (tiles g' ! k)) = length (histI h' (tiles g' ! k)) \<and>
         (if status (tiles g' ! k) = Merged
          then \<exists>a b l. histI h' (tiles g' ! k) = [a, b] \<and> histL h' (tiles g' ! k) = [l, l] \<and>
                 level (tiles g' ! k) = Some (lvl l + 1) \<and> src g a l \<and> src g b l
          else \<exists>a. histI h' (tiles g' ! k) = [a] \<and>
                 histL h' (tiles g' ! k) = [level (tiles g' ! k)] \<and>
                 src g a (level (tiles g' ! k)))"
proof -
  from gravitate_pass[OF assms(1)] have f: "sameFrame g g'" and ho: "histOK g g' h'"
    by (simp_all add: passInv_def)
  have "inBoard g' (int k)" using sameFrame_dims[OF f] assms(2) by (simp add: inBoard_def)
  with ho assms(3) have "histAt g h' (tiles g' ! k)"
    by (auto simp: histOK_def cell_def)
  then show ?thesis
    by (auto simp: histAt_def split: if_splits)
qed

theorem no_double_merge_witness:
  "gravitate Left (rowBoard, []) = Inr (rowBoard_slid, rowStore) \<and>
   (0::nat) < boardSize rowBoard \<and> \<not> isEmpty (tiles rowBoard_slid ! 0) \<and>
   status (tiles rowBoard_slid ! 0) = Merged \<and>
   histI rowStore (tiles rowBoard_slid ! 0) = [Some 0, Some 1] \<and>
   histL rowStore (tiles rowBoard_slid ! 0) = [Some 1, Some 1] \<and>
   level (tiles rowBoard_slid ! 0) = Some 2 \<and>
   src rowBoard (Some 0) (Some 1) \<and> src rowBoard (Some 1) (Some 1)"
proof -
  have a: "(0::nat) < boardSize rowBoard" "\<not> isEmpty (tiles rowBoard_slid ! 0)"
    "status (tiles rowBoard_slid ! 0) = Merged"
    "histI rowStore (tiles rowBoard_slid ! 0) = [Some 0, Some 1]"
    "histL rowStore (tiles rowBoard_slid ! 0) = [Some 1, Some 1]"
    "level (tiles rowBoard_slid ! 0) = Some 2"
    by (simp_all add: rowBoard_def rowBoard_slid_def rowStore_def boardSize_def isEmpty_def
        histI_def histL_def arr_def)
  from no_double_merge[OF rowBoard_gravitate a(1,2)] a rowBoard_gravitate
  show ?thesis by auto
qed

text \<open>
  C5. The score of a board the constructor returns is 0; no call of \<open>move\<close>, \<open>gravitate\<close>,
  \<open>spawnTile\<close> or \<open>updateStatus\<close> lowers it, so the score of every reachable board is
  non-negative; and a call of \<open>move\<close> raises it by the sum of \<open>2 ^ level\<close> over the tiles
  that have status Merged after the call, which are the tiles that absorbed another one
  during the call, with the level they have after it.
\<close>

theorem score_counts_merges:
  "(GameState_new r c target rs = Inr (g0, rs0) \<longrightarrow> score g0 = 0) \<and>
   (reaches g h g1 h1 \<longrightarrow> score g \<le> score g1) \<and>
   (reachable g2 h2 \<longrightarrow> 0 \<le> score g2) \<and>
   (move direction g3 h3 ds = Inr (changed, g4, h4, ds') \<longrightarrow>
      score g4 = score g3 + mergedSum g4 \<and> score g3 \<le> score g4)"
proof (intro conjI impI)
  assume "GameState_new r c target rs = Inr (g0, rs0)"
  from GameState_new_frame[OF this] show "score g0 = 0" by simp
next
  assume "reaches g h g1 h1"
  then show "score g \<le> score g1" by (rule reaches_score)
next
  assume "reachable g2 h2"
  then obtain r c target ds g0 ds0 h0 where
    "GameState_new r c target ds = Inr (g0, ds0)" "reaches g0 h0 g2 h2"
    by (auto simp: reachable_def)
  with GameState_new_frame[OF this(1)] reaches_score[OF this(2)] show "0 \<le> score g2" by simp
next
  assume m: "move direction g3 h3 ds = Inr (changed, g4, h4, ds')"
  from move_score[OF m] show "score g4 = score g3 + mergedSum g4" .
  with mergedSum_nonneg[of g4] show "score g3 \<le> score g4" by simp
qed

theorem score_counts_merges_witness:
  "GameState_new 1 3 11 [0, 0, 1, 0] = Inr (rowBoard, []) \<and>
   reaches rowBoard [] rowBoard_moved rowStore \<and> reachable rowBoard_moved rowStore \<and>
   move Left rowBoard [] [0, 0, 1, 0, 1, 0] = Inr (True, rowBoard_moved, rowStore, []) \<and>
   score rowBoard = 0 \<and> score rowBoard_moved = 4 \<and> mergedSum rowBoard_moved = 4"
proof -
  have r: "reaches rowBoard [] rowBoard_moved rowStore"
    by (rule reaches.by_move[OF reaches.start rowBoard_move])
  then have r': "reachable rowBoard_moved rowStore"
    unfolding reachable_def using rowBoard_new by blast
  have s: "score rowBoard_moved = 4" by (simp add: rowBoard_moved_def)
  from score_counts_merges[of 1 3 11 "[0, 0, 1, 0]" rowBoard "[]" rowBoard "[]" rowBoard_moved
      rowStore rowBoard_moved rowStore Left rowBoard "[]" "[0, 0, 1, 0, 1, 0]" True rowBoard_moved
      rowStore "[]"] rowBoard_new r r' rowBoard_move s
  show ?thesis by simp
qed

text \<open>
  C7, as stated, fails: the tiles the constructor spawns have status Spawned and no
  history arrays.
\<close>

theorem history_null_counterexample:
  "GameState_new 1 3 11 [0, 0, 1, 0] = Inr (rowBoard, []) \<and>
   status (tiles rowBoard ! 0) = Spawned \<and>
   prevIndex (tiles rowBoard ! 0) = None \<and> prevLevel (tiles rowBoard ! 0) = None"
  using rowBoard_new by (simp add: rowBoard_def)

text \<open>
  C7 (amended). For every tile of a reachable board, \<open>prevIndex\<close> and \<open>prevLevel\<close> are both
  \<open>null\<close> when the status is Empty or Spawned; for every other status both are arrays,
  of equal length.
\<close>

theorem history_arrays_invariant:
  assumes "reachable g h" and "k < boardSize g"
  shows "if status (tiles g ! k) = Empty \<or> status (tiles g ! k) = Spawned
         then prevIndex (tiles g ! k) = None \<and> prevLevel (tiles g ! k) = None
         else \<exists>ri rl. prevIndex (tiles g ! k) = Some ri \<and> prevLevel (tiles g ! k) = Some rl \<and>
                ri < length h \<and> rl < length h \<and> length (arr h ri) = length (arr h rl)"
proof -
  from reachable_boardInv[OF assms(1)] assms(2) have "tileInv h (tiles g ! k)"
    by (simp add: boardInv_def)
  then show ?thesis unfolding tileInv_def .
qed

theorem history_arrays_invariant_witness:
  "reachable rowBoard_moved rowStore \<and> (0::nat) < boardSize rowBoard_moved \<and>
   status (tiles rowBoard_moved ! 0) = Merged \<and>
   prevIndex (tiles rowBoard_moved ! 0) = Some 0 \<and> prevLevel (tiles rowBoard_moved ! 0) = Some 1 \<and>
   length (arr rowStore 0) = length (arr rowStore 1)"
proof -
  have "reaches rowBoard [] rowBoard_moved rowStore"
    by (rule reaches.by_move[OF reaches.start rowBoard_move])
  then have r: "reachable rowBoard_moved rowStore"
    unfolding reachable_def using rowBoard_new by blast
  have k: "(0::nat) < boardSize rowBoard_moved" by (simp add: rowBoard_moved_def boardSize_def)
  have f: "status (tiles rowBoard_moved ! 0) = Merged"
    "prevIndex (tiles rowBoard_moved ! 0) = Some 0" "prevLevel (tiles rowBoard_moved ! 0) = Some 1"
    by (simp_all add: rowBoard_moved_def)
  from history_arrays_invariant[OF r k] r k f show ?thesis by simp
qed

text \<open>
  C8, as stated, fails: the tiles of the snapshot share their history arrays with the
  tiles of the live board. Here the live board is a board of two cells after a
  \<open>move(Up)\<close> that changed nothing; after \<open>addState\<close>, a \<open>gravitateTile(1, -1)\<close> on the live
  board merges its two tiles and pushes onto the arrays of the snapshot's first tile.
\<close>

theorem snapshot_counterexample:
  "GameState_new 1 2 11 [0, 0, 1, 0] = Inr (pairBoard_new, []) \<and>
   move Up pairBoard_new [] [0, 0, 1, 0] = Inr (False, pairBoard, pairStore, []) \<and>
   addState (GameAnimationController_new 0) pairBoard [0, 0, 1, 0] =
     Inr (\<lparr>animationProgress = 0, stateHistory = [pairBoard], prevTime = 0\<rparr>, []) \<and>
   gravitateTile 1 (- 1) (pairBoard, pairStore) = Inr (pairBoard_merged, rowStore) \<and>
   boardView pairStore pairBoard =
     (0, [(0, Some 1, Still, Some [Some 0], Some [Some 1]),
          (1, Some 1, Still, Some [Some 1], Some [Some 1])]) \<and>
   boardView rowStore pairBoard =
     (0, [(0, Some 1, Still, Some [Some 0, Some 1], Some [Some 1, Some 1]),
          (1, Some 1, Still, Some [Some 1], Some [Some 1])])"
  unfolding pairBoard_new_def pairBoard_def pairStore_def pairBoard_merged_def rowStore_def
  by code_simp

text \<open>
  C8 (amended). \<open>addState(b)\<close> pushes a copy of the board onto the tail of the queue. If
  the arrays of the tiles of \<open>b\<close> are arrays of the store, then what can be seen of the
  snapshot is what can be seen of \<open>b\<close> at the call (score, and index, level, status and
  history contents of the tiles of the board), and it stays the same through every later
  sequence of calls of \<open>move\<close>, \<open>gravitate\<close>, \<open>spawnTile\<close> and \<open>updateStatus\<close> on the live
  board.
\<close>

theorem snapshot_kept_by_moves:
  assumes "addState a b ds = Inr (a', ds1)"
    and "\<forall>t \<in> set (take (boardSize b) (tiles b)). allocated h t"
    and "reaches b h b' h'"
  shows "\<exists>snap. stateHistory a' = stateHistory a @ [snap] \<and>
           boardView h snap = (score b, map (tileView h) (take (boardSize b) (tiles b))) \<and>
           boardView h' snap = boardView h snap"
proof -
  from addState_Inr[OF assms(1)] obtain c where
    c: "GameState_clone b ds = Inr (c, ds1)" and a': "a' = a\<lparr>stateHistory := stateHistory a @ [c]\<rparr>"
    by blast
  have "map Tile_clone ts = ts" for ts by (rule map_idI) simp
  with GameState_clone_frame[OF c] have f: "score c = score b"
    "tiles c = take (boardSize b) (tiles b)" by simp_all
  from reaches_heapExt[OF assms(3)] have e: "heapExt h h'" .
  have "map (tileView h') (tiles c) = map (tileView h) (tiles c)"
    using assms(2) f(2) tileView_heapExt[OF e] by simp
  then show ?thesis
    using a' f by (simp add: boardView_def)
qed

theorem snapshot_kept_by_moves_witness:
  "addState (GameAnimationController_new 0) rowBoard_moved [0, 0, 1, 0] =
     Inr (\<lparr>animationProgress = 0, stateHistory = [rowBoard_moved], prevTime = 0\<rparr>, []) \<and>
   move Left rowBoard_moved rowStore [0, 0, 1, 0] = Inr (False, rowBoard_still, rowStore_still, []) \<and>
   reaches rowBoard_moved rowStore rowBoard_still rowStore_still \<and>
   boardView rowStore_still rowBoard_moved = boardView rowStore rowBoard_moved \<and>
   boardView rowStore rowBoard_moved =
     (4, [(0, Some 2, Merged, Some [Some 0, Some 1], Some [Some 1, Some 1]),
          (1, Some 1, Spawned, None, None), (2, None, Empty, None, None)])"
proof -
  have a: "addState (GameAnimationController_new 0) rowBoard_moved [0, 0, 1, 0] =
     Inr (\<lparr>animationProgress = 0, stateHistory = [rowBoard_moved], prevTime = 0\<rparr>, [])"
    unfolding rowBoard_moved_def by code_simp
  have m: "move Left rowBoard_moved rowStore [0, 0, 1, 0] =
     Inr (False, rowBoard_still, rowStore_still, [])"
    unfolding rowBoard_moved_def rowBoard_still_def rowStore_still_def rowStore_def by code_simp
  have r: "reaches rowBoard_moved rowStore rowBoard_still rowStore_still"
    by (rule reaches.by_move[OF reaches.start m])
  have al: "\<forall>t \<in> set (take (boardSize rowBoard_moved) (tiles rowBoard_moved)). allocated rowStore t"
    by (simp add: rowBoard_moved_def boardSize_def allocated_def rowStore_def Tile_new_def)
  have v: "boardView rowStore rowBoard_moved =
     (4, [(0, Some 2, Merged, Some [Some 0, Some 1], Some [Some 1, Some 1]),
          (1, Some 1, Spawned, None, None), (2, None, Empty, None, None)])"
    by (simp add: boardView_def tileView_def rowBoard_moved_def rowStore_def arr_def Tile_new_def)
  from snapshot_kept_by_moves[OF a al r] a m r v show ?thesis
    by (simp add: GameAnimationController_new_def)
qed



end
